theory Spec2Isabelle
  imports Main "HOL-Library.Sublist" "HOL-Library.Multiset"
begin

section \<open>The browser session manager of \<open>src/src/browser.ts\<close>\<close>

text \<open>
  The module keeps two variables, \<open>sessions\<close> (a JavaScript \<open>Map\<close> from session id to
  session object) and \<open>cleanupTimer\<close> (an interval handle or \<open>null\<close>), and exports
  \<open>openSession\<close>, \<open>getPage\<close>, \<open>closeSession\<close>, \<open>closeAllSessions\<close> and
  \<open>getSessionCount\<close>. Three of them are \<open>async\<close>: they run synchronously up to an
  \<open>await\<close>, give the single thread back, and are resumed when the awaited promise has
  settled. The embedding keeps that structure: every function is cut at its \<open>await\<close>s
  into segments, each segment is a function from state to state, and a suspended call is
  a value of type \<open>task\<close> waiting in the state until the scheduler resumes it.
\<close>

subsection \<open>Constants\<close>

definition SESSION_TIMEOUT_MS :: int where
  "SESSION_TIMEOUT_MS = 5 * 60 * 1000"

definition MAX_SESSIONS :: nat where
  "MAX_SESSIONS = 5"

subsection \<open>Data\<close>

text \<open>
  Remote browsers and pages are objects of the collaborator; only their identity matters
  here, so a handle is a number. \<open>lastAccess\<close> is a \<open>Date.now()\<close> reading in
  milliseconds.
\<close>

record session =
  browser :: nat
  page :: nat
  lastAccess :: int

text \<open>The optional second argument of \<open>openSession\<close>; every field is optional too.\<close>

record options =
  opt_browser :: "string option"
  stealth :: "int option"
  country :: "string option"
  mode :: "string option"

text \<open>A thrown JavaScript \<open>Error\<close> with its message.\<close>

datatype exn = Error string

text \<open>What a call hands back to its caller when it returns.\<close>

datatype retval =
    Unit
  | Opened string string
  | PageHandle nat

text \<open>
  A suspended call. Each constructor is one \<open>await\<close> of the source, with the local
  variables that are live across it.
\<close>

datatype task =
    Open_connect "options option"
  | Open_pages "options option" nat
  | Open_newPage "options option" nat
  | Close_teardown
  | Reaper_wait int nat
  | CloseAll_wait nat

text \<open>How a segment ends: the call returns, throws, or is suspended at an \<open>await\<close>.\<close>

datatype completion =
    Return retval
  | Throw exn
  | Await task

text \<open>How an awaited promise of the collaborator settles.\<close>

datatype settled =
    Rejected exn
  | Connected nat
  | Pages "nat list"
  | NewPage nat
  | Closed

subsection \<open>The \<open>Map\<close>\<close>

text \<open>
  ECMAScript specifies a \<open>Map\<close> as a list of entries in insertion order. \<open>delete\<close>
  does not shorten the list: it marks the entry empty, so that an iterator which is part
  way through the list keeps its position. \<open>set\<close> overwrites the value of an existing
  key in place and appends a new key at the end. \<open>size\<close> counts the entries that are
  not empty. The reaper iterates over \<open>sessions\<close> across \<open>await\<close>s while other calls
  insert and delete, so the list is modelled with its empty entries (\<open>None\<close>).
\<close>

type_synonym 'v jsmap = "(string \<times> 'v) option list"

fun map_get :: "'v jsmap \<Rightarrow> string \<Rightarrow> 'v option" where
  "map_get [] k = None"
| "map_get (None # es) k = map_get es k"
| "map_get (Some (k', v) # es) k = (if k' = k then Some v else map_get es k)"

fun overwrite :: "string \<Rightarrow> 'v \<Rightarrow> 'v jsmap \<Rightarrow> 'v jsmap" where
  "overwrite k v [] = []"
| "overwrite k v (None # es) = None # overwrite k v es"
| "overwrite k v (Some (k', v') # es) =
     (if k' = k then Some (k, v) # es else Some (k', v') # overwrite k v es)"

definition map_set :: "string \<Rightarrow> 'v \<Rightarrow> 'v jsmap \<Rightarrow> 'v jsmap" where
  "map_set k v es =
     (case map_get es k of
        None \<Rightarrow> es @ [Some (k, v)]
      | Some _ \<Rightarrow> overwrite k v es)"

fun map_delete :: "string \<Rightarrow> 'v jsmap \<Rightarrow> 'v jsmap" where
  "map_delete k [] = []"
| "map_delete k (None # es) = None # map_delete k es"
| "map_delete k (Some (k', v) # es) =
     (if k' = k then None # es else Some (k', v) # map_delete k es)"

fun live :: "'v jsmap \<Rightarrow> (string \<times> 'v) list" where
  "live [] = []"
| "live (None # es) = live es"
| "live (Some e # es) = e # live es"

definition map_size :: "'v jsmap \<Rightarrow> nat" where
  "map_size es = length (live es)"

definition map_keys :: "'v jsmap \<Rightarrow> string list" where
  "map_keys es = map fst (live es)"

subsection \<open>The state\<close>

text \<open>
  \<open>sessions\<close> and \<open>cleanupTimer\<close> are the module's variables; \<open>cleanupTimer\<close> is
  only ever tested for being \<open>null\<close>, so it is a boolean (\<open>True\<close>: an interval is
  armed). \<open>listeners\<close> holds the \<open>"disconnected"\<close> callbacks registered with
  \<open>browser.on\<close>, as pairs of the browser and the session id the callback deletes.
  \<open>closeCalls\<close> is the trace of the calls \<open>browser.close()\<close> made so far, oldest
  first. \<open>pending\<close> holds the suspended calls.
\<close>

record state =
  sessions :: "session jsmap"
  cleanupTimer :: bool
  listeners :: "(nat \<times> string) list"
  closeCalls :: "nat list"
  pending :: "task list"

definition init :: state where
  "init = \<lparr>sessions = [], cleanupTimer = False, listeners = [], closeCalls = [], pending = []\<rparr>"

text \<open>
  What a segment reads from outside: the clock (\<open>Date.now()\<close>) and the identifier
  \<open>crypto.randomUUID()\<close> would return.
\<close>

record env =
  now :: int
  uuid :: string

subsection \<open>Rendering a number in a template literal\<close>

fun digit :: "nat \<Rightarrow> char" where
  "digit n = char_of (48 + n)"

fun decimal :: "nat \<Rightarrow> string" where
  "decimal n = (if n < 10 then [digit n] else decimal (n div 10) @ [digit (n mod 10)])"

declare decimal.simps [simp del]

subsection \<open>\<open>closeSession\<close>\<close>

text \<open>
  Up to its \<open>await\<close>: look the session up, return if there is none, delete the entry,
  call \<open>session.browser.close()\<close>. The \<open>await\<close> sits in a \<open>try\<close> whose \<open>catch\<close> is
  empty, so the call returns whichever way the teardown settles.
\<close>

definition closeSession_start :: "string \<Rightarrow> state \<Rightarrow> completion \<times> state" where
  "closeSession_start sessionId s =
     (case map_get (sessions s) sessionId of
        None \<Rightarrow> (Return Unit, s)
      | Some sess \<Rightarrow>
          (let s1 = s\<lparr>sessions := map_delete sessionId (sessions s)\<rparr>;
               s2 = s1\<lparr>closeCalls := closeCalls s1 @ [browser sess]\<rparr>
           in (Await Close_teardown, s2)))"

definition closeSession_settled :: "settled \<Rightarrow> state \<Rightarrow> completion \<times> state" where
  "closeSession_settled r s = (Return Unit, s)"

subsection \<open>\<open>startCleanup\<close> and the reaper\<close>

definition startCleanup :: "state \<Rightarrow> state" where
  "startCleanup s = (if cleanupTimer s then s else s\<lparr>cleanupTimer := True\<rparr>)"

text \<open>The statement after the reaper's loop.\<close>

definition reaper_end :: "state \<Rightarrow> completion \<times> state" where
  "reaper_end s =
     (if map_size (sessions s) = 0 \<and> cleanupTimer s
      then (Return Unit, s\<lparr>cleanupTimer := False\<rparr>)
      else (Return Unit, s))"

text \<open>
  The reaper's \<open>for ... of\<close> loop from position \<open>i\<close> of the entry list, with \<open>n\<close> the
  \<open>Date.now()\<close> read when the callback started. An entry that is not idle is passed
  over synchronously. For an idle entry the callback calls \<open>closeSession(id)\<close>, which
  runs to its own \<open>await\<close>, and is suspended on the promise \<open>closeSession\<close> returned;
  it continues at the next position when the teardown has settled.
\<close>

function reaper_loop :: "int \<Rightarrow> nat \<Rightarrow> state \<Rightarrow> completion \<times> state" where
  "reaper_loop n i s =
     (if i < length (sessions s) then
        (case sessions s ! i of
           None \<Rightarrow> reaper_loop n (Suc i) s
         | Some (sessionId, sess) \<Rightarrow>
             if n - lastAccess sess > SESSION_TIMEOUT_MS
             then (Await (Reaper_wait n (Suc i)), snd (closeSession_start sessionId s))
             else reaper_loop n (Suc i) s)
      else reaper_end s)"
  by pat_completeness auto
termination
  by (relation "measure (\<lambda>(n, i, s). length (sessions s) - i)") auto

declare reaper_loop.simps [simp del]

subsection \<open>\<open>openSession\<close>\<close>

definition capacity_message :: string where
  "capacity_message =
     ''Maximum '' @ decimal MAX_SESSIONS @ '' concurrent browser sessions reached. '' @
     ''Close an existing session with spider_browser_close first.''"

text \<open>
  Up to the first \<open>await\<close>: the capacity check, then the connection request. Building
  the WebSocket URL from the options has no effect on the module's state; the URL only
  goes to \<open>puppeteer.connect\<close>, whose outcome is an input of the model.
\<close>

definition openSession_start :: "options option \<Rightarrow> state \<Rightarrow> completion \<times> state" where
  "openSession_start opts s =
     (if map_size (sessions s) \<ge> MAX_SESSIONS
      then (Throw (Error capacity_message), s)
      else (Await (Open_connect opts), s))"

text \<open>\<open>options?.browser ?? "chrome"\<close>\<close>

definition browserType :: "options option \<Rightarrow> string" where
  "browserType opts =
     (case opts of
        None \<Rightarrow> ''chrome''
      | Some os \<Rightarrow> (case opt_browser os of None \<Rightarrow> ''chrome'' | Some b \<Rightarrow> b))"

text \<open>
  The last segment, once the page is known: generate the id, insert the session,
  register the disconnect listener, start the reaper, return.
\<close>

definition openSession_finish ::
  "env \<Rightarrow> options option \<Rightarrow> nat \<Rightarrow> nat \<Rightarrow> state \<Rightarrow> completion \<times> state" where
  "openSession_finish e opts b p s =
     (let sessionId = uuid e;
          s1 = s\<lparr>sessions :=
                 map_set sessionId \<lparr>browser = b, page = p, lastAccess = now e\<rparr> (sessions s)\<rparr>;
          s2 = s1\<lparr>listeners := listeners s1 @ [(b, sessionId)]\<rparr>;
          s3 = startCleanup s2
      in (Return (Opened sessionId (browserType opts)), s3))"

subsection \<open>\<open>getPage\<close> and \<open>getSessionCount\<close>\<close>

definition not_found_message :: string where
  "not_found_message =
     ''Browser session not found. It may have expired (5 min idle timeout) or been closed. '' @
     ''Open a new session with spider_browser_open.''"

text \<open>
  \<open>getPage\<close> is synchronous. The assignment \<open>session.lastAccess = Date.now()\<close> changes
  the object the map holds; the entry keeps its place.
\<close>

definition getPage :: "env \<Rightarrow> string \<Rightarrow> state \<Rightarrow> completion \<times> state" where
  "getPage e sessionId s =
     (case map_get (sessions s) sessionId of
        None \<Rightarrow> (Throw (Error not_found_message), s)
      | Some sess \<Rightarrow>
          (Return (PageHandle (page sess)),
           s\<lparr>sessions := overwrite sessionId (sess\<lparr>lastAccess := now e\<rparr>) (sessions s)\<rparr>))"

definition getSessionCount :: "state \<Rightarrow> nat" where
  "getSessionCount s = map_size (sessions s)"

subsection \<open>\<open>closeAllSessions\<close>\<close>

text \<open>
  \<open>ids.map(closeSession)\<close> calls \<open>closeSession\<close> for each id in turn; each call runs
  to its \<open>await\<close> before the next starts. The result is the number of calls that were
  suspended, that is, of promises \<open>Promise.allSettled\<close> has to wait for.
\<close>

fun closeSessions_start :: "string list \<Rightarrow> state \<Rightarrow> nat \<times> state" where
  "closeSessions_start [] s = (0, s)"
| "closeSessions_start (sessionId # ids) s =
     (case closeSession_start sessionId s of
        (Await t, s') \<Rightarrow> (case closeSessions_start ids s' of (k, s'') \<Rightarrow> (Suc k, s''))
      | (c, s') \<Rightarrow> closeSessions_start ids s')"

definition closeAllSessions_start :: "state \<Rightarrow> completion \<times> state" where
  "closeAllSessions_start s =
     (let ids = map_keys (sessions s);
          (k, s') = closeSessions_start ids s
      in (Await (CloseAll_wait k), s'))"

definition closeAllSessions_finish :: "state \<Rightarrow> completion \<times> state" where
  "closeAllSessions_finish s =
     (if cleanupTimer s then (Return Unit, s\<lparr>cleanupTimer := False\<rparr>) else (Return Unit, s))"

subsection \<open>Resuming a suspended call\<close>

text \<open>
  \<open>resume e t r s\<close> runs the next segment of the suspended call \<open>t\<close> when the promise
  it awaits has settled as \<open>r\<close>. \<open>None\<close>: the promise that \<open>t\<close> awaits cannot settle
  that way. \<open>CloseAll_wait k\<close> waits for \<open>k\<close> teardowns; it goes on when the last one
  has settled, or at once when there was none to wait for.
\<close>

fun resume :: "env \<Rightarrow> task \<Rightarrow> settled \<Rightarrow> state \<Rightarrow> (completion \<times> state) option" where
  "resume e (Open_connect opts) (Rejected x) s = Some (Throw x, s)"
| "resume e (Open_connect opts) (Connected b) s = Some (Await (Open_pages opts b), s)"
| "resume e (Open_pages opts b) (Rejected x) s = Some (Throw x, s)"
| "resume e (Open_pages opts b) (Pages ps) s =
     Some (case ps of
             [] \<Rightarrow> (Await (Open_newPage opts b), s)
           | p # _ \<Rightarrow> openSession_finish e opts b p s)"
| "resume e (Open_newPage opts b) (Rejected x) s = Some (Throw x, s)"
| "resume e (Open_newPage opts b) (NewPage p) s = Some (openSession_finish e opts b p s)"
| "resume e Close_teardown (Rejected x) s = Some (closeSession_settled (Rejected x) s)"
| "resume e Close_teardown Closed s = Some (closeSession_settled Closed s)"
| "resume e (Reaper_wait n i) (Rejected x) s = Some (reaper_loop n i s)"
| "resume e (Reaper_wait n i) Closed s = Some (reaper_loop n i s)"
| "resume e (CloseAll_wait k) (Rejected x) s =
     Some (if k \<le> 1 then closeAllSessions_finish s else (Await (CloseAll_wait (k - 1)), s))"
| "resume e (CloseAll_wait k) Closed s =
     Some (if k \<le> 1 then closeAllSessions_finish s else (Await (CloseAll_wait (k - 1)), s))"
| "resume e t r s = None"

subsection \<open>The event loop\<close>

text \<open>
  What the single thread can be given to do next: a call from the tool dispatcher, a
  firing of the interval, a \<open>"disconnected"\<close> notification of a browser, or the
  resumption of the suspended call at position \<open>i\<close> of \<open>pending\<close>.
\<close>

datatype event =
    Call_openSession "options option"
  | Call_getPage string
  | Call_closeSession string
  | Call_closeAllSessions
  | Timer_fire
  | Disconnected nat
  | Resume nat settled

definition spawn :: "completion \<times> state \<Rightarrow> state" where
  "spawn r = (case r of (Await t, s) \<Rightarrow> s\<lparr>pending := pending s @ [t]\<rparr> | (c, s) \<Rightarrow> s)"

text \<open>The listener \<open>() => { sessions.delete(sessionId) }\<close> of every registration for \<open>b\<close>.\<close>

fun disconnected :: "nat \<Rightarrow> (nat \<times> string) list \<Rightarrow> session jsmap \<Rightarrow> session jsmap" where
  "disconnected b [] m = m"
| "disconnected b ((b', sessionId) # ls) m =
     disconnected b ls (if b' = b then map_delete sessionId m else m)"

definition remove_nth :: "nat \<Rightarrow> 'a list \<Rightarrow> 'a list" where
  "remove_nth i xs = take i xs @ drop (Suc i) xs"

definition step :: "env \<times> event \<Rightarrow> state \<Rightarrow> state" where
  "step ee s =
     (case ee of (e, ev) \<Rightarrow>
        (case ev of
           Call_openSession opts \<Rightarrow> spawn (openSession_start opts s)
         | Call_getPage sessionId \<Rightarrow> snd (getPage e sessionId s)
         | Call_closeSession sessionId \<Rightarrow> spawn (closeSession_start sessionId s)
         | Call_closeAllSessions \<Rightarrow> spawn (closeAllSessions_start s)
         | Timer_fire \<Rightarrow> (if cleanupTimer s then spawn (reaper_loop (now e) 0 s) else s)
         | Disconnected b \<Rightarrow> s\<lparr>sessions := disconnected b (listeners s) (sessions s)\<rparr>
         | Resume i r \<Rightarrow>
             (if i < length (pending s)
              then (case resume e (pending s ! i) r (s\<lparr>pending := remove_nth i (pending s)\<rparr>) of
                      None \<Rightarrow> s
                    | Some c \<Rightarrow> spawn c)
              else s)))"

definition run :: "(env \<times> event) list \<Rightarrow> state \<Rightarrow> state" where
  "run es s = fold step es s"

subsection \<open>A call awaited to its end\<close>

text \<open>
  \<open>await_all e rs c\<close> takes a call from where its first segment left it to its end,
  resuming it with the outcomes \<open>rs\<close> of the promises it awaits, one after the other,
  while nothing else runs in between. This is what a caller sees who writes
  \<open>await openSession(...)\<close> and issues no other call meanwhile. When the outcomes run out
  before the call has ended, or one does not fit the \<open>await\<close>, the call stays suspended.
\<close>

fun await_all :: "env \<Rightarrow> settled list \<Rightarrow> completion \<times> state \<Rightarrow> completion \<times> state" where
  "await_all e [] c = c"
| "await_all e (r # rs) (Await t, s) =
     (case resume e t r s of None \<Rightarrow> (Await t, s) | Some c \<Rightarrow> await_all e rs c)"
| "await_all e (r # rs) (Return v, s) = (Return v, s)"
| "await_all e (r # rs) (Throw x, s) = (Throw x, s)"

definition openSession :: "env \<Rightarrow> options option \<Rightarrow> settled list \<Rightarrow> state \<Rightarrow> completion \<times> state" where
  "openSession e opts rs s = await_all e rs (openSession_start opts s)"

definition closeSession :: "env \<Rightarrow> string \<Rightarrow> settled list \<Rightarrow> state \<Rightarrow> completion \<times> state" where
  "closeSession e sessionId rs s = await_all e rs (closeSession_start sessionId s)"

definition closeAllSessions :: "env \<Rightarrow> settled list \<Rightarrow> state \<Rightarrow> completion \<times> state" where
  "closeAllSessions e rs s = await_all e rs (closeAllSessions_start s)"

text \<open>One firing of the interval while it is armed: the reaper's callback from its start.\<close>

definition reaper :: "env \<Rightarrow> settled list \<Rightarrow> state \<Rightarrow> completion \<times> state" where
  "reaper e rs s = await_all e rs (reaper_loop (now e) 0 s)"

subsection \<open>Example states\<close>

text \<open>
  \<open>opened n\<close>: \<open>n\<close> sessions opened one after the other from the empty module, each call
  awaited to its end; the \<open>k\<close>-th gets the id \<open>decimal k\<close> and the browser \<open>k\<close>.
\<close>

primrec opened :: "nat \<Rightarrow> state" where
  "opened 0 = init"
| "opened (Suc n) =
     snd (openSession \<lparr>now = 0, uuid = decimal n\<rparr> None [Connected n, Pages [n]] (opened n))"

subsection \<open>\<open>openSession\<close> as \<open>src/unnamed/part_001\<close> has it\<close>

text \<open>
  The other version of the module connects through \<open>spider-browser\<close>: it constructs
  the browser object \<open>b\<close>, awaits \<open>b.init()\<close> (which settles as \<open>r\<close>), and inserts
  \<open>{ browser, lastAccess }\<close>; it registers no disconnect listener. Its session has no
  field \<open>page\<close>, the page being \<open>session.browser.page\<close>, so the field is filled with
  the browser. The call is given here awaited to its end. What it returns as
  \<open>browserType\<close> is \<open>options?.browser ?? "auto"\<close>.
\<close>

definition browserType_spider :: "options option \<Rightarrow> string" where
  "browserType_spider opts =
     (case opts of
        None \<Rightarrow> ''auto''
      | Some os \<Rightarrow> (case opt_browser os of None \<Rightarrow> ''auto'' | Some b \<Rightarrow> b))"

definition openSession_spider ::
  "env \<Rightarrow> options option \<Rightarrow> nat \<Rightarrow> settled \<Rightarrow> state \<Rightarrow> completion \<times> state" where
  "openSession_spider e opts b r s =
     (if map_size (sessions s) \<ge> MAX_SESSIONS
      then (Throw (Error capacity_message), s)
      else (case r of
              Rejected x \<Rightarrow> (Throw x, s)
            | _ \<Rightarrow>
                (let sessionId = uuid e;
                     s1 = s\<lparr>sessions :=
                            map_set sessionId \<lparr>browser = b, page = b, lastAccess = now e\<rparr> (sessions s)\<rparr>;
                     s2 = startCleanup s1
                 in (Return (Opened sessionId (browserType_spider opts)), s2))))"

text \<open>
  The engines a browser can run on: the values the tool \<open>spider_browser_open\<close> accepts
  for its parameter \<open>browser\<close>, without \<open>auto\<close>, which leaves the choice to the service.
\<close>

definition engines :: "string list" where
  "engines = [''chrome'', ''chrome-new'', ''firefox'']"

definition ask_auto :: "options option" where
  "ask_auto = Some \<lparr>opt_browser = Some ''auto'', stealth = None, country = None, mode = None\<rparr>"

definition ask_firefox :: "options option" where
  "ask_firefox =
     Some \<lparr>opt_browser = Some ''firefox'', stealth = Some 2, country = None, mode = None\<rparr>"

text \<open>
  Two calls of \<open>openSession\<close> issued one right after the other, before the connection
  of either is there; then both connections arrive, then both page lists.
\<close>

definition racing_opens :: "(env \<times> event) list" where
  "racing_opens =
     [(\<lparr>now = 1, uuid = ''a''\<rparr>, Call_openSession None),
      (\<lparr>now = 1, uuid = ''b''\<rparr>, Call_openSession None),
      (\<lparr>now = 2, uuid = ''a''\<rparr>, Resume 0 (Connected 4)),
      (\<lparr>now = 2, uuid = ''b''\<rparr>, Resume 0 (Connected 5)),
      (\<lparr>now = 3, uuid = ''a''\<rparr>, Resume 0 (Pages [4])),
      (\<lparr>now = 3, uuid = ''b''\<rparr>, Resume 0 (Pages [5]))]"

subsection \<open>Browsers in the module's hands\<close>

text \<open>
  The browsers the table holds, the browser a suspended call holds in a local variable,
  and \<open>held\<close>: all the browsers the module has been given and has not dropped, each
  as often as it occurs in the table, in the teardown trace or in a suspended call.
\<close>

definition browsers_of :: "session jsmap \<Rightarrow> nat list" where
  "browsers_of m = map (\<lambda>kv. browser (snd kv)) (live m)"

fun task_browsers :: "task \<Rightarrow> nat list" where
  "task_browsers (Open_pages opts b) = [b]"
| "task_browsers (Open_newPage opts b) = [b]"
| "task_browsers t = []"

fun completion_browsers :: "completion \<Rightarrow> nat list" where
  "completion_browsers (Await t) = task_browsers t"
| "completion_browsers c = []"

fun settled_browsers :: "settled \<Rightarrow> nat list" where
  "settled_browsers (Connected b) = [b]"
| "settled_browsers r = []"

definition held :: "state \<Rightarrow> nat multiset" where
  "held s = mset (browsers_of (sessions s)) + mset (closeCalls s)
            + mset (concat (map task_browsers (pending s)))"

definition heldc :: "completion \<times> state \<Rightarrow> nat multiset" where
  "heldc cs = held (snd cs) + mset (completion_browsers (fst cs))"

text \<open>The browsers that the connections arriving in a schedule deliver, in order.\<close>

fun delivered :: "event \<Rightarrow> nat list" where
  "delivered (Resume i (Connected b)) = [b]"
| "delivered ev = []"

definition connected :: "(env \<times> event) list \<Rightarrow> nat list" where
  "connected es = concat (map (\<lambda>ee. delivered (snd ee)) es)"

text \<open>
  One session is opened; then \<open>closeSession\<close> is called on it twice, the interval fires
  at a time when the session would be idle, \<open>closeAllSessions\<close> is called and the
  browser reports its disconnection, all before any teardown has settled.
\<close>

definition racing_closes :: "(env \<times> event) list" where
  "racing_closes =
     [(\<lparr>now = 0, uuid = ''a''\<rparr>, Call_openSession None),
      (\<lparr>now = 1, uuid = ''a''\<rparr>, Resume 0 (Connected 1)),
      (\<lparr>now = 2, uuid = ''a''\<rparr>, Resume 0 (Pages [7])),
      (\<lparr>now = 3, uuid = ''b''\<rparr>, Call_closeSession ''a''),
      (\<lparr>now = 4, uuid = ''b''\<rparr>, Call_closeSession ''a''),
      (\<lparr>now = 400000, uuid = ''b''\<rparr>, Timer_fire),
      (\<lparr>now = 400001, uuid = ''b''\<rparr>, Call_closeAllSessions),
      (\<lparr>now = 400002, uuid = ''b''\<rparr>, Disconnected 1),
      (\<lparr>now = 400003, uuid = ''b''\<rparr>, Resume 0 (Rejected (Error ''closed''))),
      (\<lparr>now = 400004, uuid = ''b''\<rparr>, Resume 0 Closed)]"

subsection \<open>What a step does to the keys and to the timer\<close>

text \<open>
  \<open>keys_step u ks ks'\<close>: the keys \<open>ks'\<close> are what is left of \<open>ks\<close> after some
  deletions, or \<open>ks\<close> with the new key \<open>u\<close> at the end.
\<close>

definition keys_step :: "string \<Rightarrow> string list \<Rightarrow> string list \<Rightarrow> bool" where
  "keys_step u ks ks' \<longleftrightarrow> mset ks' \<subseteq># mset ks \<or> (u \<notin> set ks \<and> ks' = ks @ [u])"

abbreviation keys_of :: "state \<Rightarrow> string list" where
  "keys_of s \<equiv> map_keys (sessions s)"

text \<open>
  \<open>timer_ok\<close>: a table that is not empty has its reaper armed. \<open>timer_inv\<close> adds
  that no call of \<open>closeAllSessions\<close> is suspended.
\<close>

definition timer_ok :: "state \<Rightarrow> bool" where
  "timer_ok s \<longleftrightarrow> (map_keys (sessions s) \<noteq> [] \<longrightarrow> cleanupTimer s)"

fun is_CloseAll :: "task \<Rightarrow> bool" where
  "is_CloseAll (CloseAll_wait k) = True"
| "is_CloseAll t = False"

fun awaits_CloseAll :: "completion \<Rightarrow> bool" where
  "awaits_CloseAll (Await t) = is_CloseAll t"
| "awaits_CloseAll c = False"

definition timer_inv :: "state \<Rightarrow> bool" where
  "timer_inv s \<longleftrightarrow> timer_ok s \<and> (\<forall>t \<in> set (pending s). \<not> is_CloseAll t)"

text \<open>A session is opened, closed again, and its teardown completes.\<close>

definition open_and_close :: "(env \<times> event) list" where
  "open_and_close =
     [(\<lparr>now = 0, uuid = ''a''\<rparr>, Call_openSession None),
      (\<lparr>now = 1, uuid = ''a''\<rparr>, Resume 0 (Connected 1)),
      (\<lparr>now = 2, uuid = ''a''\<rparr>, Resume 0 (Pages [7])),
      (\<lparr>now = 3, uuid = ''b''\<rparr>, Call_closeSession ''a''),
      (\<lparr>now = 4, uuid = ''b''\<rparr>, Resume 0 Closed)]"

text \<open>After a close: another session is looked up, and the interval fires after a minute.\<close>

definition after_close :: "(env \<times> event) list" where
  "after_close =
     [(\<lparr>now = 5, uuid = ''b''\<rparr>, Call_getPage ''1''),
      (\<lparr>now = 60000, uuid = ''c''\<rparr>, Timer_fire)]"

subsection \<open>What a scan of the reaper leaves\<close>

text \<open>
  \<open>idle n sess\<close> is the reaper's test, with \<open>n\<close> the time the scan started.
  \<open>sweep n m\<close> is the table \<open>m\<close> with every idle entry emptied.
  \<open>teardown_outcome\<close>: the ways a call of \<open>browser.close()\<close> can settle.
\<close>

definition idle :: "int \<Rightarrow> session \<Rightarrow> bool" where
  "idle n sess \<longleftrightarrow> n - lastAccess sess > SESSION_TIMEOUT_MS"

fun sweep :: "int \<Rightarrow> session jsmap \<Rightarrow> session jsmap" where
  "sweep n [] = []"
| "sweep n (None # es) = None # sweep n es"
| "sweep n (Some (k, v) # es) = (if idle n v then None else Some (k, v)) # sweep n es"

fun teardown_outcome :: "settled \<Rightarrow> bool" where
  "teardown_outcome Closed = True"
| "teardown_outcome (Rejected x) = True"
| "teardown_outcome r = False"

text \<open>
  Two sessions opened at time 0; the second is looked up at 4:59 (299000 ms).
\<close>

definition refreshed :: state where
  "refreshed = snd (getPage \<lparr>now = 299000, uuid = ''x''\<rparr> ''1'' (opened 2))"

subsection \<open>Awaited calls in the event loop\<close>

text \<open>
  \<open>fits e rs c\<close>: every outcome in \<open>rs\<close> that the call \<open>c\<close> gets to is one the
  promise it then awaits can settle with. \<open>resumptions e n rs\<close> is the schedule that
  resumes the suspended call at position \<open>n\<close> with the outcomes \<open>rs\<close>, one after the
  other.
\<close>

fun fits :: "env \<Rightarrow> settled list \<Rightarrow> completion \<times> state \<Rightarrow> bool" where
  "fits e [] c = True"
| "fits e (r # rs) (Await t, s) =
     (case resume e t r s of None \<Rightarrow> False | Some c \<Rightarrow> fits e rs c)"
| "fits e (r # rs) (Return v, s) = True"
| "fits e (r # rs) (Throw x, s) = True"

definition resumptions :: "env \<Rightarrow> nat \<Rightarrow> settled list \<Rightarrow> (env \<times> event) list" where
  "resumptions e n rs = map (\<lambda>r. (e, Resume n r)) rs"

section \<open>Properties\<close>

subsection \<open>The \<open>Map\<close> operations\<close>

lemma live_append: "live (xs @ ys) = live xs @ live ys"
  by (induction xs rule: live.induct) simp_all

lemma map_get_live: "map_get m k = map_of (live m) k"
  by (induction m k rule: map_get.induct) simp_all

lemma map_get_in_live: "map_get m k = Some v \<Longrightarrow> (k, v) \<in> set (live m)"
  by (simp add: map_get_live map_of_SomeD)

lemma live_map_delete:
  "live (map_delete k m) =
     (case map_get m k of None \<Rightarrow> live m | Some v \<Rightarrow> remove1 (k, v) (live m))"
  by (induction k m rule: map_delete.induct) (auto split: option.splits)

lemma length_map_delete: "length (map_delete k m) = length m"
  by (induction k m rule: map_delete.induct) simp_all

lemma length_overwrite: "length (overwrite k v m) = length m"
  by (induction k v m rule: overwrite.induct) simp_all

lemma keys_overwrite: "map fst (live (overwrite k v m)) = map fst (live m)"
  by (induction k v m rule: overwrite.induct) simp_all

lemma map_get_overwrite:
  "map_get (overwrite k v m) k' =
     (if k' = k \<and> map_get m k \<noteq> None then Some v else map_get m k')"
  by (induction k v m rule: overwrite.induct) auto

lemma size_map_delete:
  assumes "map_get m k = Some v"
  shows "Suc (map_size (map_delete k m)) = map_size m"
proof -
  from assms have "(k, v) \<in> set (live m)" by (rule map_get_in_live)
  then have "length (remove1 (k, v) (live m)) = length (live m) - 1" "0 < length (live m)"
    by (auto simp: length_remove1)
  with assms show ?thesis by (simp add: map_size_def live_map_delete)
qed

lemma size_map_set_fresh:
  "map_get m k = None \<Longrightarrow> map_size (map_set k v m) = Suc (map_size m)"
  by (simp add: map_set_def map_size_def live_append)

subsection \<open>Calls awaited to their end\<close>

lemma decimal_5: "decimal 5 = ''5''"
  by code_simp

lemma capacity_message_text:
  "capacity_message =
     ''Maximum 5 concurrent browser sessions reached. Close an existing session with spider_browser_close first.''"
  by (simp add: capacity_message_def MAX_SESSIONS_def decimal_5)

lemma await_all_Throw: "await_all e rs (Throw x, s) = (Throw x, s)"
  by (cases rs) simp_all

lemma await_all_Return: "await_all e rs (Return v, s) = (Return v, s)"
  by (cases rs) simp_all

lemma remove_nth_last: "remove_nth (length xs) (xs @ [t]) = xs"
  by (simp add: remove_nth_def)

text \<open>
  A call of \<open>openSession\<close> that returns has passed the capacity check, and its last
  segment ran on the state the call started from.
\<close>

lemma openSession_Return:
  assumes "openSession e opts rs s = (Return v, s')"
  shows "map_size (sessions s) < MAX_SESSIONS \<and>
         (\<exists>b p. (Return v, s') = openSession_finish e opts b p s)"
proof -
  from assms have lt: "map_size (sessions s) < MAX_SESSIONS"
    by (auto simp: openSession_def openSession_start_def await_all_Throw split: if_splits)
  with assms have a: "await_all e rs (Await (Open_connect opts), s) = (Return v, s')"
    by (simp add: openSession_def openSession_start_def)
  then obtain r1 rs1 where rs: "rs = r1 # rs1" by (cases rs) auto
  from a rs obtain b where r1: "r1 = Connected b"
    by (cases r1) (auto simp: await_all_Throw)
  from a rs r1 have a2: "await_all e rs1 (Await (Open_pages opts b), s) = (Return v, s')"
    by simp
  then obtain r2 rs2 where rs1: "rs1 = r2 # rs2" by (cases rs1) auto
  from a2 rs1 obtain ps where r2: "r2 = Pages ps"
    by (cases r2) (auto simp: await_all_Throw)
  show ?thesis
  proof (cases ps)
    case (Cons p ps')
    with a2 rs1 r2 have "await_all e rs2 (openSession_finish e opts b p s) = (Return v, s')"
      by simp
    then have "openSession_finish e opts b p s = (Return v, s')"
      by (simp add: openSession_finish_def Let_def await_all_Return)
    with lt show ?thesis by metis
  next
    case Nil
    with a2 rs1 r2 have a3: "await_all e rs2 (Await (Open_newPage opts b), s) = (Return v, s')"
      by simp
    then obtain r3 rs3 where rs2: "rs2 = r3 # rs3" by (cases rs2) auto
    from a3 rs2 obtain p where r3: "r3 = NewPage p"
      by (cases r3) (auto simp: await_all_Throw)
    with a3 rs2 have "await_all e rs3 (openSession_finish e opts b p s) = (Return v, s')"
      by simp
    then have "openSession_finish e opts b p s = (Return v, s')"
      by (simp add: openSession_finish_def Let_def await_all_Return)
    with lt show ?thesis by metis
  qed
qed

text \<open>Once \<open>closeSession\<close> is suspended, no outcome of the teardown changes the state.\<close>

lemma await_Close_teardown:
  "snd (await_all e rs (Await Close_teardown, s)) = s \<and>
   (\<forall>x. fst (await_all e rs (Await Close_teardown, s)) \<noteq> Throw x)"
proof (cases rs)
  case Nil
  then show ?thesis by simp
next
  case (Cons r rs')
  then show ?thesis
    by (cases r) (simp_all add: closeSession_settled_def await_all_Return)
qed

subsection \<open>Admission\<close>

text \<open>
  C1. When the session count equals the limit 5, \<open>openSession\<close> throws before it
  connects. The message of the error is the one below: it names the limit (it starts
  with "Maximum 5") and tells the caller to close an existing session first. The state
  the call leaves is the state it found, session table, count and all, and nothing is
  left suspended in the event loop.
\<close>

theorem openSession_at_capacity:
  assumes "getSessionCount s = 5"
  shows "openSession e opts rs s =
           (Throw (Error ''Maximum 5 concurrent browser sessions reached. Close an existing session with spider_browser_close first.''), s)
         \<and> prefix ''Maximum 5'' capacity_message
         \<and> step (e, Call_openSession opts) s = s"
  using assms
  by (simp add: openSession_def openSession_start_def getSessionCount_def MAX_SESSIONS_def
      await_all_Throw capacity_message_text step_def spawn_def)

theorem openSession_at_capacity_witness:
  "getSessionCount (opened 5) = 5 \<and>
   openSession \<lparr>now = 9, uuid = ''u''\<rparr> None [Connected 9, Pages [9]] (opened 5) =
     (Throw (Error ''Maximum 5 concurrent browser sessions reached. Close an existing session with spider_browser_close first.''),
      opened 5)"
proof -
  have h: "getSessionCount (opened 5) = 5" by code_simp
  show ?thesis
    using h openSession_at_capacity
        [OF h, of "\<lparr>now = 9, uuid = ''u''\<rparr>" None "[Connected 9, Pages [9]]"]
    by simp
qed

subsection \<open>Connection failure\<close>

text \<open>
  C7. When the capacity check has passed and \<open>puppeteer.connect\<close> rejects with \<open>x\<close>,
  \<open>openSession\<close> throws that same \<open>x\<close> and the state is the one before the call:
  no session inserted, count and reaper untouched. In the event loop, the call followed
  by the rejection of its connection leaves the state as it was.
\<close>

theorem openSession_connect_failure:
  assumes "getSessionCount s < MAX_SESSIONS"
  shows "openSession e opts (Rejected x # rs) s = (Throw x, s) \<and>
         step (e', Resume (length (pending s)) (Rejected x)) (step (e, Call_openSession opts) s) = s"
  using assms
  by (simp add: openSession_def openSession_start_def getSessionCount_def await_all_Throw
      step_def spawn_def remove_nth_last)

theorem openSession_connect_failure_witness:
  "getSessionCount (opened 2) < MAX_SESSIONS \<and>
   openSession \<lparr>now = 9, uuid = ''u''\<rparr> None [Rejected (Error ''ECONNREFUSED'')] (opened 2) =
     (Throw (Error ''ECONNREFUSED''), opened 2)"
proof -
  have h: "getSessionCount (opened 2) < MAX_SESSIONS" by code_simp
  show ?thesis
    using h openSession_connect_failure
        [OF h, of "\<lparr>now = 9, uuid = ''u''\<rparr>" None "Error ''ECONNREFUSED''" "[]"]
    by simp
qed

subsection \<open>The session count\<close>

text \<open>
  C5. A call of \<open>openSession\<close> that returns, with an id the table does not hold yet,
  raises \<open>getSessionCount\<close> by exactly one. \<open>closeSession\<close> on an id the table holds
  lowers it by exactly one, whatever becomes of the teardown, and does not throw.
  \<open>closeSession\<close> on an id the table does not hold returns and leaves the state as it
  is.
\<close>

theorem getSessionCount_changes:
  "(openSession e opts rs s = (Return v, s') \<and> map_get (sessions s) (uuid e) = None
      \<longrightarrow> getSessionCount s' = getSessionCount s + 1)
   \<and> (map_get (sessions s) live_id \<noteq> None
      \<longrightarrow> getSessionCount (snd (closeSession e live_id rs' s)) + 1 = getSessionCount s
        \<and> (\<forall>x. fst (closeSession e live_id rs' s) \<noteq> Throw x)
        \<and> fst (closeSession e live_id (Closed # rs') s) = Return Unit
        \<and> fst (closeSession e live_id (Rejected y # rs') s) = Return Unit)
   \<and> (map_get (sessions s) unknown_id = None
      \<longrightarrow> closeSession e unknown_id rs' s = (Return Unit, s))"
proof (intro conjI impI)
  assume a: "openSession e opts rs s = (Return v, s') \<and> map_get (sessions s) (uuid e) = None"
  then obtain b p where "(Return v, s') = openSession_finish e opts b p s"
    using openSession_Return by blast
  with a show "getSessionCount s' = getSessionCount s + 1"
    by (simp add: openSession_finish_def Let_def startCleanup_def getSessionCount_def
        size_map_set_fresh split: if_splits)
next
  assume "map_get (sessions s) live_id \<noteq> None"
  then obtain v0 where g: "map_get (sessions s) live_id = Some v0" by auto
  define s1 where "s1 = snd (closeSession_start live_id s)"
  from g have st: "closeSession_start live_id s = (Await Close_teardown, s1)"
    by (simp add: s1_def closeSession_start_def Let_def)
  from g have "getSessionCount s1 + 1 = getSessionCount s"
    using size_map_delete [OF g]
    by (simp add: s1_def closeSession_start_def Let_def getSessionCount_def)
  then show "getSessionCount (snd (closeSession e live_id rs' s)) + 1 = getSessionCount s"
    by (simp add: closeSession_def st await_Close_teardown)
  show "\<forall>x. fst (closeSession e live_id rs' s) \<noteq> Throw x"
    by (simp add: closeSession_def st await_Close_teardown)
  show "fst (closeSession e live_id (Closed # rs') s) = Return Unit"
    by (simp add: closeSession_def st closeSession_settled_def await_all_Return)
  show "fst (closeSession e live_id (Rejected y # rs') s) = Return Unit"
    by (simp add: closeSession_def st closeSession_settled_def await_all_Return)
next
  assume "map_get (sessions s) unknown_id = None"
  then show "closeSession e unknown_id rs' s = (Return Unit, s)"
    by (simp add: closeSession_def closeSession_start_def await_all_Return)
qed

theorem getSessionCount_changes_witness:
  "map_get (sessions (opened 2)) ''u'' = None
   \<and> fst (openSession \<lparr>now = 9, uuid = ''u''\<rparr> None [Connected 9, Pages [9]] (opened 2)) =
       Return (Opened ''u'' ''chrome'')
   \<and> getSessionCount (opened 2) = 2
   \<and> getSessionCount
       (snd (openSession \<lparr>now = 9, uuid = ''u''\<rparr> None [Connected 9, Pages [9]] (opened 2))) = 3
   \<and> map_get (sessions (opened 2)) ''0'' \<noteq> None
   \<and> getSessionCount
       (snd (closeSession \<lparr>now = 9, uuid = ''u''\<rparr> ''0'' [Rejected (Error ''gone'')] (opened 2))) = 1
   \<and> map_get (sessions (opened 2)) ''7'' = None
   \<and> closeSession \<lparr>now = 9, uuid = ''u''\<rparr> ''7'' [Rejected (Error ''gone'')] (opened 2) =
       (Return Unit, opened 2)"
proof -
  let ?e = "\<lparr>now = 9, uuid = ''u''\<rparr>"
  let ?r = "openSession ?e None [Connected 9, Pages [9]] (opened 2)"
  have h1: "?r = (Return (Opened ''u'' ''chrome''), snd ?r)" by code_simp
  have h2: "map_get (sessions (opened 2)) (uuid ?e) = None" by code_simp
  have h3: "map_get (sessions (opened 2)) ''0'' \<noteq> None" by code_simp
  have h4: "map_get (sessions (opened 2)) ''7'' = None" by code_simp
  have h5: "getSessionCount (opened 2) = 2" by code_simp
  have h6: "fst ?r = Return (Opened ''u'' ''chrome'')" by code_simp
  show ?thesis
    using h1 h2 h3 h4 h5 h6
      getSessionCount_changes [of ?e None "[Connected 9, Pages [9]]" "opened 2"
        "Opened ''u'' ''chrome''" "snd ?r" "''0''" "[Rejected (Error ''gone'')]"
        "Error ''gone''" "''7''"]
    by simp
qed

subsection \<open>The engine descriptor\<close>

text \<open>
  C9, as the claim has it, fails: a call that asks for \<open>auto\<close> gets \<open>auto\<close> back, in
  both versions of the module, and \<open>auto\<close> is not the name of an engine.
\<close>

theorem browserType_auto_unresolved:
  "fst (openSession \<lparr>now = 0, uuid = ''u''\<rparr> ask_auto [Connected 1, Pages [1]] init) =
     Return (Opened ''u'' ''auto'')
   \<and> fst (openSession_spider \<lparr>now = 0, uuid = ''u''\<rparr> ask_auto 1 Closed init) =
     Return (Opened ''u'' ''auto'')
   \<and> ''auto'' \<notin> set engines"
  by code_simp

text \<open>
  C9, amended. For every call of \<open>openSession\<close> that returns, the descriptor returned is
  the engine the caller asked for, as the caller wrote it (\<open>auto\<close> included), and when
  the caller named none it is the fixed default: \<open>chrome\<close> in \<open>src/src/browser.ts\<close>,
  \<open>auto\<close> in \<open>src/unnamed/part_001\<close>. It does not depend on the connection.
\<close>

theorem browserType_echoes_request:
  "(openSession e opts rs s = (Return (Opened sessionId bt), s') \<longrightarrow>
      bt = (case opts of
              None \<Rightarrow> ''chrome''
            | Some os \<Rightarrow> (case opt_browser os of None \<Rightarrow> ''chrome'' | Some x \<Rightarrow> x)))
   \<and> (openSession_spider e opts b r s = (Return (Opened sessionId' bt'), s'') \<longrightarrow>
      bt' = (case opts of
              None \<Rightarrow> ''auto''
            | Some os \<Rightarrow> (case opt_browser os of None \<Rightarrow> ''auto'' | Some x \<Rightarrow> x)))"
proof (intro conjI impI)
  assume "openSession e opts rs s = (Return (Opened sessionId bt), s')"
  then obtain b p where "(Return (Opened sessionId bt), s') = openSession_finish e opts b p s"
    using openSession_Return by blast
  then show "bt = (case opts of
              None \<Rightarrow> ''chrome''
            | Some os \<Rightarrow> (case opt_browser os of None \<Rightarrow> ''chrome'' | Some x \<Rightarrow> x))"
    by (simp add: openSession_finish_def Let_def browserType_def)
next
  assume "openSession_spider e opts b r s = (Return (Opened sessionId' bt'), s'')"
  then show "bt' = (case opts of
              None \<Rightarrow> ''auto''
            | Some os \<Rightarrow> (case opt_browser os of None \<Rightarrow> ''auto'' | Some x \<Rightarrow> x))"
    by (auto simp: openSession_spider_def Let_def browserType_spider_def
        split: if_splits settled.splits)
qed

theorem browserType_echoes_request_witness:
  "openSession \<lparr>now = 0, uuid = ''u''\<rparr> ask_firefox [Connected 1, Pages [1]] init =
     (Return (Opened ''u'' ''firefox''),
      snd (openSession \<lparr>now = 0, uuid = ''u''\<rparr> ask_firefox [Connected 1, Pages [1]] init))
   \<and> openSession_spider \<lparr>now = 0, uuid = ''u''\<rparr> ask_firefox 1 Closed init =
     (Return (Opened ''u'' ''firefox''),
      snd (openSession_spider \<lparr>now = 0, uuid = ''u''\<rparr> ask_firefox 1 Closed init))
   \<and> ''firefox'' = (case ask_firefox of
              None \<Rightarrow> ''auto''
            | Some os \<Rightarrow> (case opt_browser os of None \<Rightarrow> ''auto'' | Some x \<Rightarrow> x))"
proof -
  let ?e = "\<lparr>now = 0, uuid = ''u''\<rparr>"
  let ?s = "snd (openSession ?e ask_firefox [Connected 1, Pages [1]] init)"
  let ?s2 = "snd (openSession_spider ?e ask_firefox 1 Closed init)"
  have h1: "openSession ?e ask_firefox [Connected 1, Pages [1]] init =
     (Return (Opened ''u'' ''firefox''), ?s)" by code_simp
  have h2: "openSession_spider ?e ask_firefox 1 Closed init =
     (Return (Opened ''u'' ''firefox''), ?s2)" by code_simp
  show ?thesis
    using h1 h2 browserType_echoes_request
      [of ?e ask_firefox "[Connected 1, Pages [1]]" init "''u''" "''firefox''" ?s 1 Closed
         "''u''" "''firefox''" ?s2]
    by (simp add: ask_firefox_def)
qed

subsection \<open>Concurrent calls of \<open>openSession\<close>\<close>

text \<open>
  C2 does not hold of the code. Between the capacity check and \<open>sessions.set\<close> lie the
  \<open>await\<close>s of \<open>puppeteer.connect\<close> and \<open>browser.pages()\<close>. With four sessions
  open, two calls issued before either connection is there both pass the check (both are
  suspended at the connection), and both insert: six sessions, above \<open>MAX_SESSIONS\<close>.
\<close>

theorem openSession_race_exceeds_capacity:
  "getSessionCount (opened 4) = 4
   \<and> pending (run (take 2 racing_opens) (opened 4)) = [Open_connect None, Open_connect None]
   \<and> getSessionCount (run racing_opens (opened 4)) = 6
   \<and> MAX_SESSIONS < getSessionCount (run racing_opens (opened 4))"
  by code_simp

subsection \<open>Keys and browsers of the table\<close>

lemma map_delete_absent: "map_get m k = None \<Longrightarrow> map_delete k m = m"
  by (induction k m rule: map_delete.induct) (auto split: if_splits)

lemma map_keys_delete: "map_keys (map_delete k m) = remove1 k (map_keys m)"
  by (induction k m rule: map_delete.induct) (auto simp: map_keys_def)

lemma map_keys_overwrite: "map_keys (overwrite k v m) = map_keys m"
  by (simp add: map_keys_def keys_overwrite)

lemma map_get_None_iff: "map_get m k = None \<longleftrightarrow> k \<notin> set (map_keys m)"
  by (simp add: map_get_live map_keys_def map_of_eq_None_iff)

lemma map_keys_set:
  "map_keys (map_set k v m) = (if k \<in> set (map_keys m) then map_keys m else map_keys m @ [k])"
  using map_get_None_iff [of m k]
  by (auto simp: map_set_def map_keys_overwrite split: option.splits)
     (simp add: map_keys_def live_append)

lemma map_size_keys: "map_size m = length (map_keys m)"
  by (simp add: map_size_def map_keys_def)

lemma browsers_delete:
  "mset (browsers_of (map_delete k m)) +
     (case map_get m k of None \<Rightarrow> {#} | Some v \<Rightarrow> {#browser v#}) = mset (browsers_of m)"
  by (induction k m rule: map_delete.induct) (auto simp: browsers_of_def)

lemma browsers_overwrite_same:
  "map_get m k = Some v0 \<Longrightarrow> browser v = browser v0 \<Longrightarrow>
   browsers_of (overwrite k v m) = browsers_of m"
  by (induction k v m rule: overwrite.induct) (auto simp: browsers_of_def split: if_splits)

lemma browsers_overwrite_le:
  "mset (browsers_of (overwrite k v m)) \<subseteq># mset (browsers_of m) + {#browser v#}"
  by (induction k v m rule: overwrite.induct) (auto simp: browsers_of_def)

lemma browsers_set_le:
  "mset (browsers_of (map_set k v m)) \<subseteq># mset (browsers_of m) + {#browser v#}"
  using browsers_overwrite_le [of k v m]
  by (auto simp: map_set_def browsers_of_def live_append split: option.splits)

lemma browsers_delete_le: "mset (browsers_of (map_delete k m)) \<subseteq># mset (browsers_of m)"
  using browsers_delete [of k m] by (metis mset_subset_eq_add_left)

lemma browsers_disconnected_le:
  "mset (browsers_of (disconnected b ls m)) \<subseteq># mset (browsers_of m)"
proof (induction b ls m rule: disconnected.induct)
  case (1 b m)
  then show ?case by simp
next
  case (2 b b' sessionId ls m)
  then show ?case
    using browsers_delete_le [of sessionId m]
    by (auto intro: subset_mset.order_trans)
qed

subsection \<open>Who holds a browser\<close>

text \<open>
  Every segment hands the browsers on that it found: from a suspended call into the table,
  from the table into the trace of teardowns, or out of the module. Only a connection
  that arrives brings a new one in.
\<close>

lemma held_spawn: "held (spawn cs) = heldc cs"
  by (cases cs; cases "fst cs") (auto simp: spawn_def held_def heldc_def)

lemma heldc_plain [simp]:
  "heldc (Return v, s) = held s" "heldc (Throw x, s) = held s"
  by (simp_all add: heldc_def)

lemma heldc_Await: "heldc (Await t, s) = held s + mset (task_browsers t)"
  by (simp add: heldc_def)

lemma closeSession_start_fst:
  "fst (closeSession_start sessionId s) = Return Unit \<or>
   fst (closeSession_start sessionId s) = Await Close_teardown"
  by (simp add: closeSession_start_def Let_def split: option.splits)

lemma held_closeSession_start: "held (snd (closeSession_start sessionId s)) = held s"
  using browsers_delete [of sessionId "sessions s"]
  by (auto simp: closeSession_start_def Let_def held_def split: option.splits)

lemma heldc_closeSession_start: "heldc (closeSession_start sessionId s) = held s"
  using closeSession_start_fst [of sessionId s]
  by (auto simp: heldc_def held_closeSession_start)

lemma heldc_reaper_end: "heldc (reaper_end s) = held s"
  by (simp add: reaper_end_def held_def)

lemma reaper_loop_cases:
  "reaper_loop n i s = reaper_end s \<or>
   (\<exists>sessionId j. reaper_loop n i s =
      (Await (Reaper_wait n j), snd (closeSession_start sessionId s)))"
proof (induction n i s rule: reaper_loop.induct)
  case (1 n i s)
  show ?case
  proof (cases "i < length (sessions s)")
    case False
    then show ?thesis by (subst reaper_loop.simps) simp
  next
    case True
    show ?thesis
    proof (cases "sessions s ! i")
      case None
      with True 1(1) show ?thesis by (subst reaper_loop.simps, subst (2) reaper_loop.simps) simp
    next
      case (Some kv)
      then obtain k v where kv: "sessions s ! i = Some (k, v)" by (cases kv) auto
      show ?thesis
      proof (cases "n - lastAccess v > SESSION_TIMEOUT_MS")
        case idle: True
        with True kv show ?thesis
          by (subst reaper_loop.simps, subst (2) reaper_loop.simps) auto
      next
        case fresh: False
        from 1(2) [OF True kv refl fresh] True kv fresh show ?thesis
          by (subst reaper_loop.simps, subst (2) reaper_loop.simps) simp
      qed
    qed
  qed
qed

lemma heldc_reaper_loop: "heldc (reaper_loop n i s) = held s"
  using reaper_loop_cases [of n i s]
  by (auto simp: heldc_reaper_end heldc_Await held_closeSession_start)

lemma held_closeSessions_start: "held (snd (closeSessions_start ids s)) = held s"
proof (induction ids arbitrary: s)
  case Nil
  then show ?case by simp
next
  case (Cons a ids)
  obtain c s1 where cs: "closeSession_start a s = (c, s1)" by (cases "closeSession_start a s")
  then have h: "held s1 = held s" using held_closeSession_start [of a s] by simp
  show ?case using Cons [of s1] cs h
    by (cases c) (auto split: prod.splits)
qed

lemma heldc_closeAllSessions_start: "heldc (closeAllSessions_start s) = held s"
  using held_closeSessions_start [of "map_keys (sessions s)" s]
  by (auto simp: closeAllSessions_start_def Let_def heldc_def split: prod.splits)

lemma heldc_closeAllSessions_finish: "heldc (closeAllSessions_finish s) = held s"
  by (simp add: closeAllSessions_finish_def held_def)

lemma heldc_openSession_start: "heldc (openSession_start opts s) = held s"
  by (simp add: openSession_start_def heldc_Await)

lemma held_startCleanup: "held (startCleanup s) = held s"
  by (simp add: startCleanup_def held_def)

lemma heldc_openSession_finish: "heldc (openSession_finish e opts b p s) \<subseteq># held s + {#b#}"
  using browsers_set_le [of "uuid e" "\<lparr>browser = b, page = p, lastAccess = now e\<rparr>" "sessions s"]
  by (simp add: openSession_finish_def Let_def held_startCleanup) (simp add: held_def)

lemma held_getPage: "held (snd (getPage e sessionId s)) = held s"
  by (auto simp: getPage_def held_def browsers_overwrite_same split: option.splits)

lemma held_disconnected:
  "held (s\<lparr>sessions := disconnected b (listeners s) (sessions s)\<rparr>) \<subseteq># held s"
  using browsers_disconnected_le [of b "listeners s" "sessions s"]
  by (simp add: held_def)

lemma heldc_resume:
  assumes "resume e t r s = Some cs"
  shows "heldc cs \<subseteq># held s + mset (task_browsers t) + mset (settled_browsers r)"
proof (cases t)
  case (Open_connect opts)
  with assms show ?thesis by (cases r) (auto simp: heldc_Await)
next
  case (Open_pages opts b)
  with assms show ?thesis
    using heldc_openSession_finish [of e opts b _ s]
    by (cases r) (auto simp: heldc_Await split: list.splits)
next
  case (Open_newPage opts b)
  with assms show ?thesis
    using heldc_openSession_finish [of e opts b _ s]
    by (cases r) auto
next
  case Close_teardown
  with assms show ?thesis by (cases r) (auto simp: closeSession_settled_def)
next
  case (Reaper_wait n i)
  with assms show ?thesis by (cases r) (auto simp: heldc_reaper_loop)
next
  case (CloseAll_wait k)
  with assms show ?thesis
    by (cases r) (auto simp: heldc_closeAllSessions_finish heldc_Await split: if_splits)
qed

lemma mset_concat_remove_nth:
  "i < length xs \<Longrightarrow>
   mset (concat (map f (remove_nth i xs))) + mset (f (xs ! i)) = mset (concat (map f xs))"
proof -
  assume "i < length xs"
  then have "xs = take i xs @ xs ! i # drop (Suc i) xs" by (rule id_take_nth_drop)
  then have "concat (map f xs) =
      concat (map f (take i xs)) @ f (xs ! i) @ concat (map f (drop (Suc i) xs))"
    by (metis concat.simps(2) concat_append list.simps(9) map_append)
  then show ?thesis by (simp add: remove_nth_def)
qed

lemma held_remove_nth:
  "i < length (pending s) \<Longrightarrow>
   held (s\<lparr>pending := remove_nth i (pending s)\<rparr>) + mset (task_browsers (pending s ! i)) = held s"
  using mset_concat_remove_nth [of i "pending s" task_browsers]
  by (simp add: held_def)

lemma held_step: "held (step (e, ev) s) \<subseteq># held s + mset (delivered ev)"
proof (cases ev)
  case (Call_openSession opts)
  then show ?thesis by (simp add: step_def held_spawn heldc_openSession_start)
next
  case (Call_getPage sessionId)
  then show ?thesis by (simp add: step_def held_getPage)
next
  case (Call_closeSession sessionId)
  then show ?thesis by (simp add: step_def held_spawn heldc_closeSession_start)
next
  case Call_closeAllSessions
  then show ?thesis by (simp add: step_def held_spawn heldc_closeAllSessions_start)
next
  case Timer_fire
  then show ?thesis by (simp add: step_def held_spawn heldc_reaper_loop)
next
  case (Disconnected b)
  then show ?thesis using held_disconnected [of b s] by (simp add: step_def)
next
  case (Resume i r)
  show ?thesis
  proof (cases "i < length (pending s)")
    case False
    with Resume show ?thesis by (simp add: step_def)
  next
    case True
    let ?s0 = "s\<lparr>pending := remove_nth i (pending s)\<rparr>"
    show ?thesis
    proof (cases "resume e (pending s ! i) r ?s0")
      case None
      with True Resume show ?thesis by (simp add: step_def)
    next
      case (Some cs)
      have d: "settled_browsers r = delivered (Resume i r)" by (cases r) simp_all
      from heldc_resume [OF Some] held_remove_nth [OF True]
      have "heldc cs \<subseteq># held s + mset (delivered (Resume i r))"
        by (simp add: d)
      with True Resume Some show ?thesis by (simp add: step_def held_spawn)
    qed
  qed
qed

lemma connected_Cons: "connected (ee # es) = delivered (snd ee) @ connected es"
  by (simp add: connected_def)

lemma held_run: "held (run es s) \<subseteq># held s + mset (connected es)"
proof (induction es arbitrary: s)
  case Nil
  then show ?case by (simp add: run_def connected_def)
next
  case (Cons ee es)
  obtain e ev where ee: "ee = (e, ev)" by (cases ee)
  have "held (run es (step ee s)) \<subseteq># held (step ee s) + mset (connected es)"
    using Cons [of "step ee s"] .
  also have "\<dots> \<subseteq># held s + mset (delivered ev) + mset (connected es)"
    using held_step [of e ev s] ee by simp
  finally show ?case by (simp add: run_def connected_Cons ee add.assoc)
qed

lemma distinct_mset_le: "mset xs \<subseteq># mset ys \<Longrightarrow> distinct ys \<Longrightarrow> distinct xs"
proof (induction xs arbitrary: ys)
  case Nil
  then show ?case by simp
next
  case (Cons x xs)
  from Cons.prems(1) have le: "mset xs \<subseteq># mset (remove1 x ys)"
    by (simp add: insert_subset_eq_iff)
  have d: "distinct (remove1 x ys)" using Cons.prems(2) by simp
  have "distinct xs" by (rule Cons.IH [OF le d])
  moreover have "set xs \<subseteq> set (remove1 x ys)"
    using set_mset_mono [OF le] unfolding set_mset_mset .
  then have "x \<notin> set xs"
    using Cons.prems(2) by (auto simp: set_remove1_eq)
  ultimately show ?case by simp
qed

subsection \<open>One teardown per browser\<close>

text \<open>
  C10. However calls of \<open>openSession\<close>, \<open>getPage\<close>, \<open>closeSession\<close> and
  \<open>closeAllSessions\<close>, firings of the interval, disconnect notifications and
  resumptions are interleaved from the start of the module, no browser is torn down
  twice: when every connection that arrives is a browser of its own, the trace of the
  calls \<open>browser.close()\<close> names no browser twice. \<open>closeSession\<close> takes the browser out
  of the table in the segment in which it calls \<open>close()\<close>, so whoever comes next for
  the same id finds nothing to tear down.
\<close>

theorem teardown_at_most_once:
  assumes "distinct (connected es)"
  shows "distinct (closeCalls (run es init))"
proof -
  have "mset (closeCalls (run es init)) \<subseteq># held (run es init)"
    by (simp add: held_def)
  also have "\<dots> \<subseteq># held init + mset (connected es)" by (rule held_run)
  finally have le: "mset (closeCalls (run es init)) \<subseteq># mset (connected es)"
    by (simp add: held_def init_def browsers_of_def)
  from le assms show ?thesis by (rule distinct_mset_le)
qed

theorem teardown_at_most_once_witness:
  "distinct (connected racing_closes) \<and> distinct (closeCalls (run racing_closes init))
   \<and> closeCalls (run racing_closes init) = [1]"
proof -
  have h: "distinct (connected racing_closes)" by code_simp
  have c: "closeCalls (run racing_closes init) = [1]" by code_simp
  show ?thesis using h c teardown_at_most_once [OF h] by simp
qed

lemma keys_step_refl: "keys_step u ks ks"
  by (simp add: keys_step_def)

subsection \<open>The keys of the table along a run\<close>

lemma mset_le_set: "mset xs \<subseteq># mset ys \<Longrightarrow> set xs \<subseteq> set ys"
  using set_mset_mono [of "mset xs" "mset ys"] by simp

lemma keys_step_set: "keys_step u ks ks' \<Longrightarrow> set ks' \<subseteq> insert u (set ks)"
  using mset_le_set [of ks' ks] by (auto simp: keys_step_def)

lemma keys_step_distinct: "keys_step u ks ks' \<Longrightarrow> distinct ks \<Longrightarrow> distinct ks'"
  by (auto simp: keys_step_def intro: distinct_mset_le)

lemma keys_closeSession_start:
  "keys_of (snd (closeSession_start sessionId s)) = remove1 sessionId (keys_of s)"
  using map_get_None_iff [of "sessions s" sessionId]
  by (auto simp: closeSession_start_def Let_def map_keys_delete remove1_idem split: option.splits)

lemma keys_closeSession_start_le:
  "mset (keys_of (snd (closeSession_start sessionId s))) \<subseteq># mset (keys_of s)"
  by (simp add: keys_closeSession_start)

lemma keys_reaper_end: "keys_of (snd (reaper_end s)) = keys_of s"
  by (simp add: reaper_end_def)

lemma keys_reaper_loop_le: "mset (keys_of (snd (reaper_loop n i s))) \<subseteq># mset (keys_of s)"
  using reaper_loop_cases [of n i s]
  by (auto simp: keys_reaper_end keys_closeSession_start)

lemma keys_closeSessions_start_le:
  "mset (keys_of (snd (closeSessions_start ids s))) \<subseteq># mset (keys_of s)"
proof (induction ids arbitrary: s)
  case Nil
  then show ?case by simp
next
  case (Cons a ids)
  obtain c s1 where cs: "closeSession_start a s = (c, s1)" by (cases "closeSession_start a s")
  then have h: "mset (keys_of s1) \<subseteq># mset (keys_of s)"
    using keys_closeSession_start_le [of a s] by simp
  have "mset (keys_of (snd (closeSessions_start ids s1))) \<subseteq># mset (keys_of s1)"
    by (rule Cons)
  with h have "mset (keys_of (snd (closeSessions_start ids s1))) \<subseteq># mset (keys_of s)"
    by (rule subset_mset.order_trans [rotated])
  with cs show ?case by (cases c) (auto split: prod.splits)
qed

lemma keys_closeAllSessions_start_le:
  "mset (keys_of (snd (closeAllSessions_start s))) \<subseteq># mset (keys_of s)"
  using keys_closeSessions_start_le [of "map_keys (sessions s)" s]
  by (auto simp: closeAllSessions_start_def Let_def split: prod.splits)

lemma keys_getPage: "keys_of (snd (getPage e sessionId s)) = keys_of s"
  by (auto simp: getPage_def map_keys_overwrite split: option.splits)

lemma keys_disconnected_le: "mset (map_keys (disconnected b ls m)) \<subseteq># mset (map_keys m)"
proof (induction b ls m rule: disconnected.induct)
  case (1 b m)
  then show ?case by simp
next
  case (2 b b' sessionId ls m)
  have "mset (map_keys (map_delete sessionId m)) \<subseteq># mset (map_keys m)"
    by (simp add: map_keys_delete)
  with 2 show ?case by (auto intro: subset_mset.order_trans)
qed

lemma keys_openSession_finish:
  "keys_step (uuid e) (keys_of s) (keys_of (snd (openSession_finish e opts b p s)))"
  by (simp add: openSession_finish_def Let_def startCleanup_def map_keys_set keys_step_def)

lemma keys_resume:
  assumes "resume e t r s = Some cs"
  shows "keys_step (uuid e) (keys_of s) (keys_of (snd cs))"
proof (cases t)
  case (Open_connect opts)
  with assms show ?thesis by (cases r) (auto simp: keys_step_refl)
next
  case (Open_pages opts b)
  with assms show ?thesis
    using keys_openSession_finish [of e s opts b]
    by (cases r) (auto simp: keys_step_refl split: list.splits)
next
  case (Open_newPage opts b)
  with assms show ?thesis
    using keys_openSession_finish [of e s opts b]
    by (cases r) (auto simp: keys_step_refl)
next
  case Close_teardown
  with assms show ?thesis by (cases r) (auto simp: closeSession_settled_def keys_step_refl)
next
  case (Reaper_wait n i)
  with assms show ?thesis
    using keys_reaper_loop_le [of n i s] by (cases r) (auto simp: keys_step_def)
next
  case (CloseAll_wait k)
  with assms show ?thesis
    by (cases r) (auto simp: closeAllSessions_finish_def keys_step_refl split: if_splits)
qed

lemma sessions_spawn [simp]: "sessions (spawn cs) = sessions (snd cs)"
  by (cases cs; cases "fst cs") (auto simp: spawn_def)

lemma cleanupTimer_spawn [simp]: "cleanupTimer (spawn cs) = cleanupTimer (snd cs)"
  by (cases cs; cases "fst cs") (auto simp: spawn_def)

lemma keys_step_step: "keys_step (uuid e) (keys_of s) (keys_of (step (e, ev) s))"
proof (cases ev)
  case (Call_openSession opts)
  then show ?thesis by (simp add: step_def openSession_start_def keys_step_refl)
next
  case (Call_getPage sessionId)
  then show ?thesis by (simp add: step_def keys_getPage keys_step_refl)
next
  case (Call_closeSession sessionId)
  then show ?thesis by (simp add: step_def keys_step_def keys_closeSession_start)
next
  case Call_closeAllSessions
  then show ?thesis by (simp add: step_def keys_step_def keys_closeAllSessions_start_le)
next
  case Timer_fire
  then show ?thesis by (simp add: step_def keys_step_def keys_reaper_loop_le)
next
  case (Disconnected b)
  then show ?thesis by (simp add: step_def keys_step_def keys_disconnected_le)
next
  case (Resume i r)
  show ?thesis
  proof (cases "i < length (pending s)")
    case False
    with Resume show ?thesis by (simp add: step_def keys_step_refl)
  next
    case True
    let ?s0 = "s\<lparr>pending := remove_nth i (pending s)\<rparr>"
    show ?thesis
    proof (cases "resume e (pending s ! i) r ?s0")
      case None
      with True Resume show ?thesis by (simp add: step_def keys_step_refl)
    next
      case (Some cs)
      from keys_resume [OF Some] True Resume Some show ?thesis by (simp add: step_def)
    qed
  qed
qed

lemma run_Cons: "run (ee # es) s = run es (step ee s)"
  by (simp add: run_def)

lemma keys_run:
  "set (keys_of (run es s)) \<subseteq> set (keys_of s) \<union> (\<lambda>ee. uuid (fst ee)) ` set es"
proof (induction es arbitrary: s)
  case Nil
  then show ?case by (simp add: run_def)
next
  case (Cons ee es)
  obtain e ev where ee: "ee = (e, ev)" by (cases ee)
  from keys_step_set [OF keys_step_step [of e s ev]]
  have "set (keys_of (step ee s)) \<subseteq> insert (uuid e) (set (keys_of s))" by (simp add: ee)
  with Cons [of "step ee s"] show ?case by (auto simp: run_Cons ee)
qed

lemma distinct_keys_run: "distinct (keys_of s) \<Longrightarrow> distinct (keys_of (run es s))"
proof (induction es arbitrary: s)
  case Nil
  then show ?case by (simp add: run_def)
next
  case (Cons ee es)
  obtain e ev where ee: "ee = (e, ev)" by (cases ee)
  from keys_step_distinct [OF keys_step_step [of e s ev] Cons.prems]
  have "distinct (keys_of (step ee s))" by (simp add: ee)
  then show ?case by (simp add: run_Cons Cons.IH)
qed

subsection \<open>Lookup after close\<close>

text \<open>
  C3. \<open>closeSession(id)\<close> deletes the entry in its first segment, the one that calls
  \<open>browser.close()\<close> and is then suspended on the teardown. From the state this segment
  leaves, whatever runs next in the event loop, in any order and whether or not the
  teardown has settled, \<open>getPage(id)\<close> throws the not-found error and changes nothing;
  this as long as no \<open>randomUUID()\<close> hands the same id out again. The table is a
  \<open>Map\<close>: its keys are distinct.
\<close>

theorem getPage_after_closeSession:
  assumes "distinct (map_keys (sessions s))"
    and "\<forall>ee \<in> set es. uuid (fst ee) \<noteq> sessionId"
  shows "getPage e sessionId (run es (step (e0, Call_closeSession sessionId) s)) =
           (Throw (Error not_found_message), run es (step (e0, Call_closeSession sessionId) s))"
proof -
  let ?s1 = "step (e0, Call_closeSession sessionId) s"
  have "keys_of ?s1 = remove1 sessionId (keys_of s)"
    by (simp add: step_def keys_closeSession_start)
  with assms(1) have "sessionId \<notin> set (keys_of ?s1)" by simp
  with keys_run [of es ?s1] assms(2) have "sessionId \<notin> set (keys_of (run es ?s1))" by auto
  then have "map_get (sessions (run es ?s1)) sessionId = None" by (simp add: map_get_None_iff)
  then show ?thesis by (simp add: getPage_def)
qed

theorem getPage_after_closeSession_witness:
  "distinct (map_keys (sessions (opened 2)))
   \<and> list_all (\<lambda>ee. uuid (fst ee) \<noteq> ''0'') after_close
   \<and> fst (getPage \<lparr>now = 3, uuid = ''b''\<rparr> ''0'' (opened 2)) = Return (PageHandle 0)
   \<and> pending (run after_close (step (\<lparr>now = 4, uuid = ''b''\<rparr>, Call_closeSession ''0'') (opened 2)))
       = [Close_teardown]
   \<and> fst (getPage \<lparr>now = 400001, uuid = ''b''\<rparr> ''0''
        (run after_close (step (\<lparr>now = 4, uuid = ''b''\<rparr>, Call_closeSession ''0'') (opened 2))))
       = Throw (Error not_found_message)"
proof -
  have h1: "distinct (map_keys (sessions (opened 2)))" by code_simp
  have h2: "\<forall>ee \<in> set after_close. uuid (fst ee) \<noteq> ''0''" by (simp add: after_close_def)
  have h3: "fst (getPage \<lparr>now = 3, uuid = ''b''\<rparr> ''0'' (opened 2)) = Return (PageHandle 0)"
    by code_simp
  have h4: "pending (run after_close
        (step (\<lparr>now = 4, uuid = ''b''\<rparr>, Call_closeSession ''0'') (opened 2))) = [Close_teardown]"
    by code_simp
  show ?thesis
    using h1 h2 h3 h4 getPage_after_closeSession [OF h1 h2,
        of "\<lparr>now = 400001, uuid = ''b''\<rparr>" "\<lparr>now = 4, uuid = ''b''\<rparr>"]
    by (simp add: list_all_iff)
qed

subsection \<open>The reaper and the table along a run\<close>

lemma timer_ok_shrink:
  "timer_ok s \<Longrightarrow> cleanupTimer s' = cleanupTimer s \<Longrightarrow>
   mset (keys_of s') \<subseteq># mset (keys_of s) \<Longrightarrow> timer_ok s'"
  by (auto simp: timer_ok_def)

lemma cleanupTimer_closeSession_start:
  "cleanupTimer (snd (closeSession_start sessionId s)) = cleanupTimer s"
  by (simp add: closeSession_start_def Let_def split: option.splits)

lemma pending_closeSession_start:
  "pending (snd (closeSession_start sessionId s)) = pending s"
  by (simp add: closeSession_start_def Let_def split: option.splits)

lemma timer_ok_closeSession_start:
  "timer_ok s \<Longrightarrow> timer_ok (snd (closeSession_start sessionId s))"
  by (erule timer_ok_shrink) (simp_all add: cleanupTimer_closeSession_start keys_closeSession_start)

lemma timer_ok_reaper_end: "timer_ok s \<Longrightarrow> timer_ok (snd (reaper_end s))"
  by (auto simp: reaper_end_def timer_ok_def map_size_keys)

lemma timer_ok_reaper_loop: "timer_ok s \<Longrightarrow> timer_ok (snd (reaper_loop n i s))"
  using reaper_loop_cases [of n i s]
  by (auto simp: timer_ok_reaper_end timer_ok_closeSession_start)

lemma pending_reaper_loop: "pending (snd (reaper_loop n i s)) = pending s"
  using reaper_loop_cases [of n i s]
  by (auto simp: reaper_end_def pending_closeSession_start)

lemma fst_reaper_end: "fst (reaper_end s) = Return Unit"
  by (simp add: reaper_end_def)

lemma not_awaits_CloseAll_reaper_loop: "\<not> awaits_CloseAll (fst (reaper_loop n i s))"
  using reaper_loop_cases [of n i s]
  by (auto simp: fst_reaper_end)

lemma timer_ok_getPage: "timer_ok s \<Longrightarrow> timer_ok (snd (getPage e sessionId s))"
  by (erule timer_ok_shrink) (auto simp: keys_getPage, auto simp: getPage_def split: option.splits)

lemma timer_ok_openSession_finish: "timer_ok (snd (openSession_finish e opts b p s))"
  by (simp add: openSession_finish_def Let_def startCleanup_def timer_ok_def)

lemma pending_openSession_finish: "pending (snd (openSession_finish e opts b p s)) = pending s"
  by (simp add: openSession_finish_def Let_def startCleanup_def)

lemma fst_openSession_finish:
  "fst (openSession_finish e opts b p s) = Return (Opened (uuid e) (browserType opts))"
  by (simp add: openSession_finish_def Let_def)

lemma timer_resume:
  assumes "resume e t r s = Some cs" and "\<not> is_CloseAll t" and "timer_ok s"
  shows "timer_ok (snd cs) \<and> pending (snd cs) = pending s \<and> \<not> awaits_CloseAll (fst cs)"
proof (cases t)
  case (Open_connect opts)
  with assms show ?thesis by (cases r) auto
next
  case (Open_pages opts b)
  with assms show ?thesis
    by (cases r)
      (auto simp: timer_ok_openSession_finish pending_openSession_finish fst_openSession_finish
        split: list.splits)
next
  case (Open_newPage opts b)
  with assms show ?thesis
    by (cases r)
      (auto simp: timer_ok_openSession_finish pending_openSession_finish fst_openSession_finish)
next
  case Close_teardown
  with assms show ?thesis by (cases r) (auto simp: closeSession_settled_def)
next
  case (Reaper_wait n i)
  with assms show ?thesis
    by (cases r)
      (auto simp: timer_ok_reaper_loop pending_reaper_loop not_awaits_CloseAll_reaper_loop)
next
  case (CloseAll_wait k)
  with assms show ?thesis by simp
qed

lemma pending_spawn:
  "pending (spawn cs) = pending (snd cs) @ (case fst cs of Await t \<Rightarrow> [t] | _ \<Rightarrow> [])"
  by (cases cs; cases "fst cs") (auto simp: spawn_def)

lemma timer_inv_spawn:
  "timer_ok (snd cs) \<Longrightarrow> \<forall>t \<in> set (pending (snd cs)). \<not> is_CloseAll t \<Longrightarrow>
   \<not> awaits_CloseAll (fst cs) \<Longrightarrow> timer_inv (spawn cs)"
  by (cases cs; cases "fst cs") (auto simp: timer_inv_def timer_ok_def pending_spawn)

lemma set_remove_nth: "set (remove_nth i xs) \<subseteq> set xs"
  by (auto simp: remove_nth_def dest: in_set_takeD in_set_dropD)

lemma timer_inv_step:
  assumes "timer_inv s" and "ev \<noteq> Call_closeAllSessions"
  shows "timer_inv (step (e, ev) s)"
proof -
  from assms(1) have ok: "timer_ok s" and np: "\<forall>t \<in> set (pending s). \<not> is_CloseAll t"
    by (simp_all add: timer_inv_def)
  show ?thesis
  proof (cases ev)
    case (Call_openSession opts)
    with ok np show ?thesis
      by (auto simp: step_def openSession_start_def intro!: timer_inv_spawn)
  next
    case (Call_getPage sessionId)
    have "pending (snd (getPage e sessionId s)) = pending s"
      by (auto simp: getPage_def split: option.splits)
    with Call_getPage ok np show ?thesis
      by (simp add: step_def timer_inv_def timer_ok_getPage)
  next
    case (Call_closeSession sessionId)
    have "\<not> awaits_CloseAll (fst (closeSession_start sessionId s))"
      using closeSession_start_fst [of sessionId s] by auto
    with Call_closeSession ok np show ?thesis
      by (auto simp: step_def timer_ok_closeSession_start pending_closeSession_start
          intro!: timer_inv_spawn)
  next
    case Call_closeAllSessions
    with assms(2) show ?thesis by simp
  next
    case Timer_fire
    with ok np assms(1) show ?thesis
      by (auto simp: step_def timer_ok_reaper_loop pending_reaper_loop
          not_awaits_CloseAll_reaper_loop intro!: timer_inv_spawn)
  next
    case (Disconnected b)
    have "timer_ok (s\<lparr>sessions := disconnected b (listeners s) (sessions s)\<rparr>)"
      using ok by (rule timer_ok_shrink) (simp_all add: keys_disconnected_le)
    with Disconnected np show ?thesis by (simp add: step_def timer_inv_def)
  next
    case (Resume i r)
    show ?thesis
    proof (cases "i < length (pending s)")
      case False
      with Resume assms(1) show ?thesis by (simp add: step_def)
    next
      case True
      let ?s0 = "s\<lparr>pending := remove_nth i (pending s)\<rparr>"
      have ok0: "timer_ok ?s0" using ok by (simp add: timer_ok_def)
      have np0: "\<forall>t \<in> set (pending ?s0). \<not> is_CloseAll t"
        using np set_remove_nth [of i "pending s"] by auto
      have nt: "\<not> is_CloseAll (pending s ! i)" using np True by simp
      show ?thesis
      proof (cases "resume e (pending s ! i) r ?s0")
        case None
        with True Resume assms(1) show ?thesis by (simp add: step_def)
      next
        case (Some cs)
        from timer_resume [OF Some nt ok0] np0 have "timer_inv (spawn cs)"
          by (auto intro!: timer_inv_spawn)
        with True Resume Some show ?thesis by (simp add: step_def)
      qed
    qed
  qed
qed

lemma timer_inv_run:
  "timer_inv s \<Longrightarrow> \<forall>ee \<in> set es. snd ee \<noteq> Call_closeAllSessions \<Longrightarrow> timer_inv (run es s)"
proof (induction es arbitrary: s)
  case Nil
  then show ?case by (simp add: run_def)
next
  case (Cons ee es)
  obtain e ev where ee: "ee = (e, ev)" by (cases ee)
  with Cons.prems have "timer_inv (step ee s)" by (simp add: timer_inv_step)
  with Cons show ?case by (simp add: run_Cons)
qed

lemma live_empty_nth: "live m = [] \<Longrightarrow> i < length m \<Longrightarrow> m ! i = None"
proof (induction m arbitrary: i rule: live.induct)
  case 1
  then show ?case by simp
next
  case (2 es)
  then show ?case by (cases i) simp_all
next
  case (3 e es)
  then show ?case by simp
qed

lemma reaper_loop_empty: "live (sessions s) = [] \<Longrightarrow> reaper_loop n i s = reaper_end s"
proof (induction n i s rule: reaper_loop.induct)
  case (1 n i s)
  show ?case
  proof (cases "i < length (sessions s)")
    case False
    then show ?thesis by (subst reaper_loop.simps) simp
  next
    case True
    with 1(3) have none: "sessions s ! i = None" by (simp add: live_empty_nth)
    with True 1(1) 1(3) show ?thesis by (subst reaper_loop.simps) simp
  qed
qed

subsection \<open>The reaper reference\<close>

text \<open>
  C8, as the claim has it, fails: after a session has been opened and closed again the
  table is empty and \<open>cleanupTimer\<close> is still set. \<open>closeSession\<close> does not touch
  it.
\<close>

theorem cleanupTimer_after_last_close:
  "\<not> (cleanupTimer (run open_and_close init) \<longleftrightarrow> 0 < getSessionCount (run open_and_close init))"
  by code_simp

text \<open>
  C8, amended. In every state the event loop reaches from the start of the module
  without a call of \<open>closeAllSessions\<close>, a table that is not empty has
  \<open>cleanupTimer\<close> set: the segment of \<open>openSession\<close> that inserts the session also
  starts the reaper. \<open>closeSession\<close> leaves \<open>cleanupTimer\<close> as it is, also when it
  empties the table; the reference is cleared by the firing of the interval that finds
  the table empty.
\<close>

theorem cleanupTimer_while_nonempty:
  assumes "\<forall>ee \<in> set es. snd ee \<noteq> Call_closeAllSessions"
  shows "(0 < getSessionCount (run es init) \<longrightarrow> cleanupTimer (run es init))
         \<and> cleanupTimer (snd (closeSession_start sessionId s)) = cleanupTimer s
         \<and> (getSessionCount s = 0 \<longrightarrow> \<not> cleanupTimer (snd (reaper e rs s)))"
proof (intro conjI impI)
  have "timer_inv init" by (simp add: timer_inv_def timer_ok_def init_def map_keys_def)
  from timer_inv_run [OF this assms] have "timer_ok (run es init)" by (simp add: timer_inv_def)
  moreover assume "0 < getSessionCount (run es init)"
  ultimately show "cleanupTimer (run es init)"
    by (simp add: timer_ok_def getSessionCount_def map_size_keys)
next
  show "cleanupTimer (snd (closeSession_start sessionId s)) = cleanupTimer s"
    by (rule cleanupTimer_closeSession_start)
next
  assume "getSessionCount s = 0"
  then have "live (sessions s) = []" by (simp add: getSessionCount_def map_size_def)
  then show "\<not> cleanupTimer (snd (reaper e rs s))"
    by (cases "cleanupTimer s")
      (simp_all add: reaper_def reaper_loop_empty reaper_end_def map_size_def await_all_Return)
qed

theorem cleanupTimer_while_nonempty_witness:
  "list_all (\<lambda>ee. snd ee \<noteq> Call_closeAllSessions) (take 3 open_and_close)
   \<and> 0 < getSessionCount (run (take 3 open_and_close) init)
   \<and> cleanupTimer (run (take 3 open_and_close) init)
   \<and> getSessionCount (run open_and_close init) = 0
   \<and> cleanupTimer (run open_and_close init)
   \<and> \<not> cleanupTimer (snd (reaper \<lparr>now = 60000, uuid = ''c''\<rparr> [] (run open_and_close init)))"
proof -
  have h1: "\<forall>ee \<in> set (take 3 open_and_close). snd ee \<noteq> Call_closeAllSessions"
    by (simp add: open_and_close_def)
  have h2: "0 < getSessionCount (run (take 3 open_and_close) init)" by code_simp
  have h3: "getSessionCount (run open_and_close init) = 0" by code_simp
  have h4: "cleanupTimer (run open_and_close init)" by code_simp
  show ?thesis
    using h1 h2 h3 h4
      cleanupTimer_while_nonempty [OF h1, of "''a''" "run open_and_close init"
        "\<lparr>now = 60000, uuid = ''c''\<rparr>" "[]"]
    by (simp add: list_all_iff)
qed

subsection \<open>A scan of the reaper awaited to its end\<close>

lemma map_keys_simps [simp]:
  "map_keys [] = []"
  "map_keys (None # m) = map_keys m"
  "map_keys (Some (k, v) # m) = k # map_keys m"
  "map_keys (xs @ ys) = map_keys xs @ map_keys ys"
  by (simp_all add: map_keys_def live_append)

lemma map_get_append:
  "map_get (pre @ m) k = (case map_get pre k of None \<Rightarrow> map_get m k | Some v \<Rightarrow> Some v)"
  by (induction pre k rule: map_get.induct) simp_all

lemma map_delete_append:
  "map_get pre k = None \<Longrightarrow> map_delete k (pre @ m) = pre @ map_delete k m"
  by (induction k pre rule: map_delete.induct) (auto split: if_splits)

lemma live_sweep: "live (sweep n m) = filter (\<lambda>kv. \<not> idle n (snd kv)) (live m)"
  by (induction n m rule: sweep.induct) simp_all

lemma await_all_reaper_end: "await_all e rs (reaper_end s) = reaper_end s"
  by (simp add: reaper_end_def await_all_Return)

lemma resume_Reaper_wait:
  "teardown_outcome r \<Longrightarrow> resume e (Reaper_wait n i) r s = Some (reaper_loop n i s)"
  by (cases r) simp_all

lemma reaper_scan:
  assumes "distinct (map_keys (pre @ post))"
    and "sessions s = pre @ post"
    and "\<forall>r \<in> set rs. teardown_outcome r"
    and "length (filter (\<lambda>kv. idle n (snd kv)) (live post)) \<le> length rs"
  shows "await_all e rs (reaper_loop n (length pre) s) =
         reaper_end (s\<lparr>sessions := pre @ sweep n post,
                        closeCalls := closeCalls s @
                          map (\<lambda>kv. browser (snd kv)) (filter (\<lambda>kv. idle n (snd kv)) (live post))\<rparr>)"
  using assms
proof (induction post arbitrary: pre s rs)
  case Nil
  then have "reaper_loop n (length pre) s = reaper_end s"
    by (subst reaper_loop.simps) simp
  moreover from Nil have "s\<lparr>sessions := pre @ sweep n [],
      closeCalls := closeCalls s @
        map (\<lambda>kv. browser (snd kv)) (filter (\<lambda>kv. idle n (snd kv)) (live []))\<rparr> = s"
    by simp
  ultimately show ?case by (simp add: await_all_reaper_end)
next
  case (Cons en post)
  from Cons.prems(2) have i: "length pre < length (sessions s)" "sessions s ! length pre = en"
    by simp_all
  show ?case
  proof (cases en)
    case None
    from i None have loop: "reaper_loop n (length pre) s = reaper_loop n (length (pre @ [None])) s"
      by (subst reaper_loop.simps) simp
    have "await_all e rs (reaper_loop n (length (pre @ [None])) s) =
         reaper_end (s\<lparr>sessions := (pre @ [None]) @ sweep n post,
                        closeCalls := closeCalls s @
                          map (\<lambda>kv. browser (snd kv)) (filter (\<lambda>kv. idle n (snd kv)) (live post))\<rparr>)"
      using Cons.prems None by (intro Cons.IH) simp_all
    with loop None show ?thesis by simp
  next
    case (Some kv)
    obtain k v where kv: "kv = (k, v)" by (cases kv)
    show ?thesis
    proof (cases "idle n v")
      case False
      from i Some kv False
      have loop: "reaper_loop n (length pre) s = reaper_loop n (length (pre @ [Some (k, v)])) s"
        by (subst reaper_loop.simps) (simp add: idle_def)
      have "await_all e rs (reaper_loop n (length (pre @ [Some (k, v)])) s) =
         reaper_end (s\<lparr>sessions := (pre @ [Some (k, v)]) @ sweep n post,
                        closeCalls := closeCalls s @
                          map (\<lambda>kv. browser (snd kv)) (filter (\<lambda>kv. idle n (snd kv)) (live post))\<rparr>)"
        using Cons.prems Some kv False by (intro Cons.IH) simp_all
      with loop Some kv False show ?thesis by simp
    next
      case True
      from Cons.prems(1) Some kv have "k \<notin> set (map_keys pre)" by simp
      then have np: "map_get pre k = None" by (simp add: map_get_None_iff)
      with Cons.prems(2) Some kv have g: "map_get (sessions s) k = Some v"
        by (simp add: map_get_append)
      from np Cons.prems(2) Some kv have d: "map_delete k (sessions s) = pre @ None # post"
        by (simp add: map_delete_append)
      define s1 where "s1 = s\<lparr>sessions := pre @ None # post, closeCalls := closeCalls s @ [browser v]\<rparr>"
      from g d have cs: "closeSession_start k s = (Await Close_teardown, s1)"
        by (simp add: closeSession_start_def Let_def s1_def)
      from i Some kv True cs
      have loop: "reaper_loop n (length pre) s = (Await (Reaper_wait n (length (pre @ [None]))), s1)"
        by (subst reaper_loop.simps) (simp add: idle_def)
      from Cons.prems(4) Some kv True obtain r rs' where rs: "rs = r # rs'"
        by (cases rs) auto
      with Cons.prems(3) have r: "teardown_outcome r" by simp
      have s1s: "sessions s1 = (pre @ [None]) @ post" by (simp add: s1_def)
      have "await_all e rs' (reaper_loop n (length (pre @ [None])) s1) =
         reaper_end (s1\<lparr>sessions := (pre @ [None]) @ sweep n post,
                        closeCalls := closeCalls s1 @
                          map (\<lambda>kv. browser (snd kv)) (filter (\<lambda>kv. idle n (snd kv)) (live post))\<rparr>)"
        using Cons.prems Some kv True rs s1s by (intro Cons.IH) simp_all
      with loop rs r Some kv True show ?thesis
        by (simp add: resume_Reaper_wait s1_def)
    qed
  qed
qed

lemma map_of_filter_keep:
  "map_of xs k = Some v \<Longrightarrow> P (k, v) \<Longrightarrow> map_of (filter P xs) k = Some v"
  by (induction xs) (auto split: if_splits)

subsection \<open>The idle timeout\<close>

text \<open>
  C4. A scan of the reaper that started at time \<open>now e\<close> and is awaited to its end
  (one teardown outcome for every session it closes, nothing else running in between)
  returns, and the sessions left in the table are exactly those with
  \<open>now - lastAccess \<le> SESSION_TIMEOUT_MS\<close>, in their order; \<open>browser.close()\<close> has
  been called for exactly the others, those idle for strictly more than five minutes.
  Every \<open>getPage\<close> that finds its session sets the session's \<open>lastAccess\<close> to the
  current time, and a session whose \<open>lastAccess\<close> is within the window at the scan is
  still in the table, unchanged, after it.
\<close>

theorem reaper_closes_idle:
  assumes "distinct (map_keys (sessions s))"
    and "\<forall>r \<in> set rs. r = Closed \<or> (\<exists>x. r = Rejected x)"
    and "length (filter (\<lambda>kv. now e - lastAccess (snd kv) > SESSION_TIMEOUT_MS) (live (sessions s)))
           \<le> length rs"
  shows "fst (reaper e rs s) = Return Unit
       \<and> live (sessions (snd (reaper e rs s))) =
           filter (\<lambda>kv. \<not> now e - lastAccess (snd kv) > SESSION_TIMEOUT_MS) (live (sessions s))
       \<and> closeCalls (snd (reaper e rs s)) =
           closeCalls s @ map (\<lambda>kv. browser (snd kv))
             (filter (\<lambda>kv. now e - lastAccess (snd kv) > SESSION_TIMEOUT_MS) (live (sessions s)))
       \<and> (map_get (sessions s) sessionId = Some sess \<longrightarrow>
            map_get (sessions (snd (getPage e' sessionId s))) sessionId =
              Some (sess\<lparr>lastAccess := now e'\<rparr>))
       \<and> (map_get (sessions s) sessionId = Some sess
            \<and> now e - lastAccess sess \<le> SESSION_TIMEOUT_MS \<longrightarrow>
            map_get (sessions (snd (reaper e rs s))) sessionId = Some sess)"
proof -
  let ?idle = "\<lambda>kv. idle (now e) (snd kv)"
  let ?s' = "s\<lparr>sessions := [] @ sweep (now e) (sessions s),
               closeCalls := closeCalls s @
                 map (\<lambda>kv. browser (snd kv)) (filter ?idle (live (sessions s)))\<rparr>"
  have t: "\<forall>r \<in> set rs. teardown_outcome r" using assms(2) by auto
  have "await_all e rs (reaper_loop (now e) (length ([] :: session jsmap)) s) = reaper_end ?s'"
    using assms(1) t assms(3) by (intro reaper_scan) (simp_all add: idle_def)
  then have r: "reaper e rs s = reaper_end ?s'" by (simp add: reaper_def)
  have l: "live (sessions (snd (reaper e rs s))) = filter (\<lambda>kv. \<not> ?idle kv) (live (sessions s))"
    by (simp add: r reaper_end_def live_sweep)
  have c: "closeCalls (snd (reaper e rs s)) =
      closeCalls s @ map (\<lambda>kv. browser (snd kv)) (filter ?idle (live (sessions s)))"
    by (simp add: r reaper_end_def)
  have f: "fst (reaper e rs s) = Return Unit" by (simp add: r reaper_end_def)
  have g: "map_get (sessions (snd (getPage e' sessionId s))) sessionId =
              Some (sess\<lparr>lastAccess := now e'\<rparr>)" if "map_get (sessions s) sessionId = Some sess"
    using that by (simp add: getPage_def map_get_overwrite)
  have k: "map_get (sessions (snd (reaper e rs s))) sessionId = Some sess"
    if "map_get (sessions s) sessionId = Some sess" "now e - lastAccess sess \<le> SESSION_TIMEOUT_MS"
    using that map_of_filter_keep [of "live (sessions s)" sessionId sess "\<lambda>kv. \<not> ?idle kv"]
    by (simp add: map_get_live l idle_def)
  from f l c g k show ?thesis by (simp add: idle_def)
qed

theorem reaper_closes_idle_witness:
  "distinct (map_keys (sessions refreshed))
   \<and> list_all teardown_outcome [Closed]
   \<and> map_get (sessions refreshed) ''1'' = Some \<lparr>browser = 1, page = 1, lastAccess = 299000\<rparr>
   \<and> map_keys (sessions (snd (reaper \<lparr>now = 300000, uuid = ''x''\<rparr> [] refreshed))) = [''0'', ''1'']
   \<and> fst (reaper \<lparr>now = 360000, uuid = ''x''\<rparr> [Closed] refreshed) = Return Unit
   \<and> map_keys (sessions (snd (reaper \<lparr>now = 360000, uuid = ''x''\<rparr> [Closed] refreshed))) = [''1'']
   \<and> map_get (sessions (snd (reaper \<lparr>now = 360000, uuid = ''x''\<rparr> [Closed] refreshed))) ''1''
       = Some \<lparr>browser = 1, page = 1, lastAccess = 299000\<rparr>
   \<and> closeCalls (snd (reaper \<lparr>now = 360000, uuid = ''x''\<rparr> [Closed] refreshed)) = [0]"
proof -
  let ?e = "\<lparr>now = 360000, uuid = ''x''\<rparr>"
  let ?sess = "\<lparr>browser = 1, page = 1, lastAccess = 299000\<rparr>"
  have h1: "distinct (map_keys (sessions refreshed))" by code_simp
  have h2: "\<forall>r \<in> set [Closed]. r = Closed \<or> (\<exists>x. r = Rejected x)" by simp
  have h3: "length (filter (\<lambda>kv. now ?e - lastAccess (snd kv) > SESSION_TIMEOUT_MS)
              (live (sessions refreshed))) \<le> length [Closed]" by code_simp
  have h4: "map_get (sessions refreshed) ''1'' = Some ?sess" by code_simp
  have h5: "now ?e - lastAccess ?sess \<le> SESSION_TIMEOUT_MS" by code_simp
  have h6: "map_keys (sessions (snd (reaper \<lparr>now = 300000, uuid = ''x''\<rparr> [] refreshed)))
              = [''0'', ''1'']" by code_simp
  have h7: "map_keys (sessions (snd (reaper ?e [Closed] refreshed))) = [''1'']" by code_simp
  have h8: "closeCalls (snd (reaper ?e [Closed] refreshed)) = [0]" by code_simp
  show ?thesis
    using h1 h2 h4 h5 h6 h7 h8 reaper_closes_idle [OF h1 h2 h3, of "''1''" ?sess ?e]
    by (simp add: list_all_iff)
qed

subsection \<open>\<open>closeAllSessions\<close> awaited to its end\<close>

lemma map_get_all_None: "\<forall>en \<in> set pre. en = None \<Longrightarrow> map_get pre k = None"
  by (induction pre k rule: map_get.induct) simp_all

lemma live_all_None: "live (map (\<lambda>_. None) m) = []"
  by (induction m) simp_all

lemma closeSessions_start_all:
  assumes "\<forall>en \<in> set pre. en = None" and "sessions s = pre @ post"
  shows "closeSessions_start (map_keys post) s =
           (length (live post),
            s\<lparr>sessions := pre @ map (\<lambda>_. None) post,
              closeCalls := closeCalls s @ browsers_of post\<rparr>)"
  using assms
proof (induction post arbitrary: pre s)
  case Nil
  then show ?case by (simp add: browsers_of_def)
next
  case (Cons en post)
  show ?case
  proof (cases en)
    case None
    have "closeSessions_start (map_keys post) s =
           (length (live post),
            s\<lparr>sessions := (pre @ [None]) @ map (\<lambda>_. None) post,
              closeCalls := closeCalls s @ browsers_of post\<rparr>)"
      using Cons.prems None by (intro Cons.IH) simp_all
    with None show ?thesis by (simp add: browsers_of_def)
  next
    case (Some kv)
    obtain k v where kv: "kv = (k, v)" by (cases kv)
    from Cons.prems(1) have np: "map_get pre k = None" by (rule map_get_all_None)
    with Cons.prems(2) Some kv have g: "map_get (sessions s) k = Some v"
      by (simp add: map_get_append)
    from np Cons.prems(2) Some kv have d: "map_delete k (sessions s) = pre @ None # post"
      by (simp add: map_delete_append)
    define s1 where "s1 = s\<lparr>sessions := pre @ None # post, closeCalls := closeCalls s @ [browser v]\<rparr>"
    from g d have cs: "closeSession_start k s = (Await Close_teardown, s1)"
      by (simp add: closeSession_start_def Let_def s1_def)
    have "closeSessions_start (map_keys post) s1 =
           (length (live post),
            s1\<lparr>sessions := (pre @ [None]) @ map (\<lambda>_. None) post,
               closeCalls := closeCalls s1 @ browsers_of post\<rparr>)"
      using Cons.prems by (intro Cons.IH) (simp_all add: s1_def)
    with cs Some kv show ?thesis by (simp add: s1_def browsers_of_def)
  qed
qed

lemma closeAllSessions_start_all:
  "closeAllSessions_start s =
     (Await (CloseAll_wait (map_size (sessions s))),
      s\<lparr>sessions := map (\<lambda>_. None) (sessions s),
        closeCalls := closeCalls s @ browsers_of (sessions s)\<rparr>)"
  using closeSessions_start_all [of "[]" s "sessions s"]
  by (simp add: closeAllSessions_start_def map_size_def)

lemma await_CloseAll_wait:
  "\<forall>r \<in> set rs. teardown_outcome r \<Longrightarrow> max 1 k \<le> length rs \<Longrightarrow>
   await_all e rs (Await (CloseAll_wait k), s) = closeAllSessions_finish s"
proof (induction rs arbitrary: k)
  case Nil
  then show ?case by simp
next
  case (Cons r rs)
  then have t: "teardown_outcome r" by simp
  show ?case
  proof (cases "k \<le> 1")
    case True
    with t show ?thesis
      by (cases r) (simp_all add: closeAllSessions_finish_def await_all_Return)
  next
    case False
    with Cons.prems have "await_all e rs (Await (CloseAll_wait (k - 1)), s) = closeAllSessions_finish s"
      by (intro Cons.IH) simp_all
    with False t show ?thesis by (cases r) simp_all
  qed
qed

lemma await_CloseAll_wait_no_throw:
  "fst (await_all e rs (Await (CloseAll_wait k), s)) \<noteq> Throw x"
proof (induction rs arbitrary: k)
  case Nil
  then show ?case by simp
next
  case (Cons r rs)
  show ?case
    using Cons.IH [of "k - 1"]
    by (cases r) (simp_all add: closeAllSessions_finish_def await_all_Return)
qed

subsection \<open>Shutdown\<close>

text \<open>
  C6. \<open>closeAllSessions\<close>, awaited to its end: whatever way the teardowns settle,
  fulfilled or rejected, the call returns, the session count is 0, \<open>cleanupTimer\<close> is
  cleared, and \<open>browser.close()\<close> has been called for every session the table held,
  in the table's order. The count is 0 already after the first segment, before any
  teardown has settled. No sequence of outcomes makes the call throw.
\<close>

theorem closeAllSessions_closes_all:
  assumes "\<forall>r \<in> set rs. r = Closed \<or> (\<exists>x. r = Rejected x)"
    and "max 1 (getSessionCount s) \<le> length rs"
  shows "fst (closeAllSessions e rs s) = Return Unit
       \<and> getSessionCount (snd (closeAllSessions e rs s)) = 0
       \<and> \<not> cleanupTimer (snd (closeAllSessions e rs s))
       \<and> closeCalls (snd (closeAllSessions e rs s)) = closeCalls s @ browsers_of (sessions s)
       \<and> getSessionCount (step (e, Call_closeAllSessions) s) = 0
       \<and> (\<forall>rs' x. fst (closeAllSessions e rs' s) \<noteq> Throw x)"
proof -
  let ?s1 = "s\<lparr>sessions := map (\<lambda>_. None) (sessions s),
               closeCalls := closeCalls s @ browsers_of (sessions s)\<rparr>"
  have t: "\<forall>r \<in> set rs. teardown_outcome r" using assms(1) by auto
  from assms(2) have "max 1 (map_size (sessions s)) \<le> length rs"
    by (simp add: getSessionCount_def)
  with t have r: "closeAllSessions e rs s = closeAllSessions_finish ?s1"
    by (simp add: closeAllSessions_def closeAllSessions_start_all await_CloseAll_wait)
  have "getSessionCount (step (e, Call_closeAllSessions) s) = 0"
    by (simp add: step_def closeAllSessions_start_all getSessionCount_def map_size_def
        live_all_None)
  moreover have "\<forall>rs' x. fst (closeAllSessions e rs' s) \<noteq> Throw x"
    by (simp add: closeAllSessions_def closeAllSessions_start_all await_CloseAll_wait_no_throw)
  ultimately show ?thesis
    by (simp add: r closeAllSessions_finish_def getSessionCount_def map_size_def live_all_None)
qed

theorem closeAllSessions_closes_all_witness:
  "list_all teardown_outcome [Closed, Rejected (Error ''Target closed''), Closed]
   \<and> max 1 (getSessionCount (opened 3)) \<le> length [Closed, Rejected (Error ''Target closed''), Closed]
   \<and> cleanupTimer (opened 3)
   \<and> fst (closeAllSessions \<lparr>now = 9, uuid = ''x''\<rparr>
            [Closed, Rejected (Error ''Target closed''), Closed] (opened 3)) = Return Unit
   \<and> getSessionCount (snd (closeAllSessions \<lparr>now = 9, uuid = ''x''\<rparr>
            [Closed, Rejected (Error ''Target closed''), Closed] (opened 3))) = 0
   \<and> \<not> cleanupTimer (snd (closeAllSessions \<lparr>now = 9, uuid = ''x''\<rparr>
            [Closed, Rejected (Error ''Target closed''), Closed] (opened 3)))
   \<and> closeCalls (snd (closeAllSessions \<lparr>now = 9, uuid = ''x''\<rparr>
            [Closed, Rejected (Error ''Target closed''), Closed] (opened 3))) = [0, 1, 2]"
proof -
  let ?rs = "[Closed, Rejected (Error ''Target closed''), Closed]"
  have h1: "\<forall>r \<in> set ?rs. r = Closed \<or> (\<exists>x. r = Rejected x)" by simp
  have h2: "max 1 (getSessionCount (opened 3)) \<le> length ?rs" by code_simp
  have h3: "cleanupTimer (opened 3)" by code_simp
  have h4: "closeCalls (opened 3) @ browsers_of (sessions (opened 3)) = [0, 1, 2]" by code_simp
  show ?thesis
    using h1 h2 h3 h4 closeAllSessions_closes_all [OF h1 h2, of "\<lparr>now = 9, uuid = ''x''\<rparr>"]
    by (simp add: list_all_iff)
qed

subsection \<open>An awaited call is a run of the event loop\<close>

text \<open>
  A call awaited to its end is the run of the event loop in which the call is issued and
  then resumed, as the last one suspended, with each outcome in turn.
\<close>

lemma pending_resume:
  assumes "resume e t r s = Some cs"
  shows "pending (snd cs) = pending s"
proof (cases t)
  case (Open_connect opts)
  with assms show ?thesis by (cases r) auto
next
  case (Open_pages opts b)
  with assms show ?thesis
    by (cases r) (auto simp: pending_openSession_finish split: list.splits)
next
  case (Open_newPage opts b)
  with assms show ?thesis by (cases r) (auto simp: pending_openSession_finish)
next
  case Close_teardown
  with assms show ?thesis by (cases r) (auto simp: closeSession_settled_def)
next
  case (Reaper_wait n i)
  with assms show ?thesis by (cases r) (auto simp: pending_reaper_loop)
next
  case (CloseAll_wait k)
  with assms show ?thesis
    by (cases r) (auto simp: closeAllSessions_finish_def split: if_splits)
qed

lemma run_finished:
  "length (pending s) \<le> n \<Longrightarrow> run (resumptions e n rs) s = s"
  by (induction rs) (simp_all add: resumptions_def run_def step_def)

lemma run_await_all:
  assumes "fits e rs cs" and "length (pending (snd cs)) = n"
  shows "run (resumptions e n rs) (spawn cs) = spawn (await_all e rs cs)"
  using assms
proof (induction rs arbitrary: cs)
  case Nil
  then show ?case by (simp add: resumptions_def run_def)
next
  case (Cons r rs)
  obtain c s where cs: "cs = (c, s)" by (cases cs)
  show ?case
  proof (cases c)
    case (Return v)
    with cs Cons.prems(2) show ?thesis
      using run_finished [of s n e "r # rs"] by (simp add: spawn_def)
  next
    case (Throw x)
    with cs Cons.prems(2) show ?thesis
      using run_finished [of s n e "r # rs"] by (simp add: spawn_def)
  next
    case (Await t)
    with cs Cons.prems(1) obtain c' where res: "resume e t r s = Some c'" and f: "fits e rs c'"
      by (auto split: option.splits)
    from pending_resume [OF res] cs Cons.prems(2) have len: "length (pending (snd c')) = n"
      by simp
    from cs Cons.prems(2) have n: "n = length (pending s)" by simp
    have "step (e, Resume n r) (spawn cs) = spawn c'"
      using res by (simp add: cs Await spawn_def step_def n remove_nth_last)
    then have "run (resumptions e n (r # rs)) (spawn cs) = run (resumptions e n rs) (spawn c')"
      by (simp add: resumptions_def run_def)
    also have "\<dots> = spawn (await_all e rs c')" using f len by (rule Cons.IH)
    finally show ?thesis using res by (simp add: cs Await)
  qed
qed

lemma run_openSession:
  "fits e rs (openSession_start opts s) \<Longrightarrow>
   run (resumptions e (length (pending s)) rs) (step (e, Call_openSession opts) s) =
     spawn (openSession e opts rs s)"
  by (simp add: step_def openSession_def run_await_all openSession_start_def)

end
